theory Spec2Isabelle
  imports Complex_Main "HOL-Library.Char_ord" "HOL-Library.List_Lexorder"
begin

section \<open>JSON values and the serializer \<^verbatim>\<open>json.dumps\<close>\<close>

text \<open>
  The dashboard builder stores labels, tags, panels and variables as JSON text and
  compares the labels column as text, so the serializer is modelled down to the
  characters it writes. A Python value that \<^verbatim>\<open>json.dumps\<close> accepts is a \<open>json\<close>
  term; a \<^verbatim>\<open>dict\<close> keeps its insertion order, so an object is the list of its
  pairs in that order. Floats are left out of the value type; strings hold the code
  points below 256 (one \<open>char\<close> each).
\<close>

datatype json =
    JNull
  | JBool bool
  | JInt int
  | JStr string
  | JArr "json list"
  | JObj "(string \<times> json) list"

text \<open>
  \<^verbatim>\<open>py_encode_basestring_ascii\<close>: backslash, the double quote and every character
  outside \<^verbatim>\<open>' '..'~'\<close> are escaped; the short escapes are taken first, every other
  one is \<^verbatim>\<open>\u00xx\<close> in lower-case hexadecimal.
\<close>

definition hex_digit :: "nat \<Rightarrow> char" where
  "hex_digit d = ''0123456789abcdef'' ! d"

definition escape_char :: "char \<Rightarrow> string" where
  "escape_char c =
     (if c = CHR 0x5C then [CHR 0x5C, CHR 0x5C]
      else if c = CHR 0x22 then [CHR 0x5C, CHR 0x22]
      else if c = CHR 0x08 then [CHR 0x5C, CHR ''b'']
      else if c = CHR 0x0C then [CHR 0x5C, CHR ''f'']
      else if c = CHR 0x0A then [CHR 0x5C, CHR ''n'']
      else if c = CHR 0x0D then [CHR 0x5C, CHR ''r'']
      else if c = CHR 0x09 then [CHR 0x5C, CHR ''t'']
      else if (of_char c :: nat) < 0x20 \<or> 0x7E < (of_char c :: nat)
        then [CHR 0x5C, CHR ''u'', CHR ''0'', CHR ''0'',
              hex_digit (of_char c div 16), hex_digit (of_char c mod 16)]
      else [c])"

definition encode_basestring_ascii :: "string \<Rightarrow> string" where
  "encode_basestring_ascii s = CHR 0x22 # concat (map escape_char s) @ [CHR 0x22]"

text \<open>\<^verbatim>\<open>int.__repr__\<close>: decimal digits, a minus sign for a negative number.\<close>

definition digit_char :: "nat \<Rightarrow> char" where
  "digit_char d = char_of (48 + d)"

fun str_nat :: "nat \<Rightarrow> string" where
  "str_nat n = (if n < 10 then [digit_char n] else str_nat (n div 10) @ [digit_char (n mod 10)])"

declare str_nat.simps [simp del]

definition str_int :: "int \<Rightarrow> string" where
  "str_int i = (if i < 0 then CHR ''-'' # str_nat (nat (- i)) else str_nat (nat i))"

text \<open>
  \<^verbatim>\<open>_make_iterencode\<close>. With \<^verbatim>\<open>indent=None\<close> the separators are \<^verbatim>\<open>', '\<close> and
  \<^verbatim>\<open>': '\<close> and nothing is written between the brackets and the items; with
  \<^verbatim>\<open>indent=n\<close> the item separator is \<^verbatim>\<open>','\<close> and every item starts on a new line,
  indented by \<open>n\<close> spaces per level. An empty list is \<^verbatim>\<open>[]\<close> and an empty dict
  \<^verbatim>\<open>{}\<close> in both.
\<close>

fun intercalate :: "string \<Rightarrow> string list \<Rightarrow> string" where
  "intercalate sep [] = []"
| "intercalate sep [x] = x"
| "intercalate sep (x # y # ys) = x @ sep @ intercalate sep (y # ys)"

definition newline_indent :: "nat option \<Rightarrow> nat \<Rightarrow> string" where
  "newline_indent indent level =
     (case indent of None \<Rightarrow> [] | Some n \<Rightarrow> CHR 0x0A # replicate (n * level) CHR '' '')"

definition item_separator :: "nat option \<Rightarrow> string" where
  "item_separator indent = (case indent of None \<Rightarrow> '', '' | Some n \<Rightarrow> '','')"

definition key_separator :: string where
  "key_separator = '': ''"

fun iterencode :: "nat option \<Rightarrow> json \<Rightarrow> nat \<Rightarrow> string" where
  "iterencode ind JNull lvl = ''null''"
| "iterencode ind (JBool b) lvl = (if b then ''true'' else ''false'')"
| "iterencode ind (JInt i) lvl = str_int i"
| "iterencode ind (JStr s) lvl = encode_basestring_ascii s"
| "iterencode ind (JArr xs) lvl =
     (if xs = [] then ''[]''
      else ''['' @ newline_indent ind (Suc lvl)
        @ intercalate (item_separator ind @ newline_indent ind (Suc lvl))
            (map (\<lambda>x. iterencode ind x (Suc lvl)) xs)
        @ newline_indent ind lvl @ '']'')"
| "iterencode ind (JObj kvs) lvl =
     (if kvs = [] then ''{}''
      else ''{'' @ newline_indent ind (Suc lvl)
        @ intercalate (item_separator ind @ newline_indent ind (Suc lvl))
            (map (\<lambda>(k, v). encode_basestring_ascii k @ key_separator
                    @ iterencode ind v (Suc lvl)) kvs)
        @ newline_indent ind lvl @ ''}'')"

definition json_dumps :: "json \<Rightarrow> string" where
  "json_dumps v = iterencode None v 0"


text \<open>The Python values the builder serializes: a \<^verbatim>\<open>Dict[str, str]\<close> of labels.\<close>

type_synonym labels = "(string \<times> string) list"

definition labels_value :: "labels \<Rightarrow> json" where
  "labels_value ls = JObj (map (\<lambda>(k, v). (k, JStr v)) ls)"

text \<open>\<^verbatim>\<open>labels or {}\<close>: \<^verbatim>\<open>None\<close> and the empty dict both give the empty dict.\<close>

definition or_empty :: "'a list option \<Rightarrow> 'a list" where
  "or_empty x = (case x of None \<Rightarrow> [] | Some l \<Rightarrow> l)"

section \<open>The parser \<^verbatim>\<open>json.loads\<close>\<close>

text \<open>
  White space is the space, the tab, the line feed and the carriage return.
\<close>

definition is_ws :: "char \<Rightarrow> bool" where
  "is_ws c \<longleftrightarrow> c = CHR '' '' \<or> c = CHR 0x09 \<or> c = CHR 0x0A \<or> c = CHR 0x0D"

definition skip_ws :: "string \<Rightarrow> string" where
  "skip_ws s = dropWhile is_ws s"

text \<open>
  \<^verbatim>\<open>py_scanstring\<close> in strict mode, from just after the opening quote: the text up
  to the closing quote, with the escapes decoded. A control character inside the string
  and an unknown escape are errors. A \<^verbatim>\<open>\uXXXX\<close> escape takes four hexadecimal digits
  of either case; one that names a code point from 256 on has no \<open>char\<close> and is
  outside this model (the result is \<open>None\<close>).
\<close>

definition is_digit :: "char \<Rightarrow> bool" where
  "is_digit c \<longleftrightarrow> 48 \<le> (of_char c :: nat) \<and> (of_char c :: nat) \<le> 57"

definition digit_val :: "char \<Rightarrow> nat" where
  "digit_val c = of_char c - 48"

definition hex_val :: "char \<Rightarrow> nat option" where
  "hex_val c =
     (let n = (of_char c :: nat)
      in if 48 \<le> n \<and> n \<le> 57 then Some (n - 48)
         else if 97 \<le> n \<and> n \<le> 102 then Some (n - 87)
         else if 65 \<le> n \<and> n \<le> 70 then Some (n - 55)
         else None)"

definition unescape :: "char \<Rightarrow> char option" where
  "unescape e =
     (if e = CHR 0x22 then Some (CHR 0x22)
      else if e = CHR 0x5C then Some (CHR 0x5C)
      else if e = CHR ''/'' then Some (CHR ''/'')
      else if e = CHR ''b'' then Some (CHR 0x08)
      else if e = CHR ''f'' then Some (CHR 0x0C)
      else if e = CHR ''n'' then Some (CHR 0x0A)
      else if e = CHR ''r'' then Some (CHR 0x0D)
      else if e = CHR ''t'' then Some (CHR 0x09)
      else None)"

definition cons_result :: "'a \<Rightarrow> ('a list \<times> string) option \<Rightarrow> ('a list \<times> string) option" where
  "cons_result x res = (case res of None \<Rightarrow> None | Some (xs, r) \<Rightarrow> Some (x # xs, r))"

fun scanstring :: "string \<Rightarrow> (string \<times> string) option" where
  "scanstring [] = None"
| "scanstring (c # cs) =
     (if c = CHR 0x22 then Some ([], cs)
      else if c = CHR 0x5C then
        (case cs of
           [] \<Rightarrow> None
         | e # r \<Rightarrow>
             if e = CHR ''u'' then
               (case r of
                  h1 # h2 # h3 # h4 # r' \<Rightarrow>
                    (case (hex_val h1, hex_val h2, hex_val h3, hex_val h4) of
                       (Some a, Some b, Some c, Some d) \<Rightarrow>
                         (let n = ((a * 16 + b) * 16 + c) * 16 + d
                          in if n < 256 then cons_result (char_of n) (scanstring r') else None)
                     | _ \<Rightarrow> None)
                | _ \<Rightarrow> None)
             else (case unescape e of
                     None \<Rightarrow> None
                   | Some ch \<Rightarrow> cons_result ch (scanstring r)))
      else if (of_char c :: nat) < 0x20 then None
      else cons_result c (scanstring cs))"

text \<open>
  \<^verbatim>\<open>NUMBER_RE\<close>: an optional minus sign, then \<^verbatim>\<open>0\<close> or a digit from 1 to 9 followed
  by digits. When a fraction or an exponent follows, the number is a float, which this
  model leaves out (the result is \<open>None\<close>); so are \<^verbatim>\<open>NaN\<close> and \<^verbatim>\<open>Infinity\<close>.
\<close>

definition number_is_float :: "string \<Rightarrow> bool" where
  "number_is_float r =
     (case r of
        c # d # r' \<Rightarrow>
          (c = CHR ''.'' \<and> is_digit d)
          \<or> ((c = CHR ''e'' \<or> c = CHR ''E'')
              \<and> (is_digit d
                  \<or> ((d = CHR ''+'' \<or> d = CHR ''-'')
                      \<and> (case r' of x # _ \<Rightarrow> is_digit x | [] \<Rightarrow> False))))
      | _ \<Rightarrow> False)"

definition nat_of_digits :: "string \<Rightarrow> nat" where
  "nat_of_digits ds = foldl (\<lambda>a c. 10 * a + digit_val c) 0 ds"

definition match_integer :: "string \<Rightarrow> (string \<times> string) option" where
  "match_integer s =
     (case s of
        [] \<Rightarrow> None
      | c # cs \<Rightarrow>
          if c = CHR ''0'' then Some ([c], cs)
          else if is_digit c then Some (c # takeWhile is_digit cs, dropWhile is_digit cs)
          else None)"

definition parse_number :: "string \<Rightarrow> (json \<times> string) option" where
  "parse_number s =
     (let (neg, s1) = (case s of c # cs \<Rightarrow> if c = CHR ''-'' then (True, cs) else (False, s)
                               | [] \<Rightarrow> (False, s))
      in case match_integer s1 of
           None \<Rightarrow> None
         | Some (ds, r) \<Rightarrow>
             if number_is_float r then None
             else Some (JInt (if neg then - int (nat_of_digits ds) else int (nat_of_digits ds)), r))"

text \<open>
  The pairs of an object become a \<^verbatim>\<open>dict\<close>: a key met again replaces the value and
  keeps the place of its first occurrence.
\<close>

fun dict_set :: "'k \<Rightarrow> 'v \<Rightarrow> ('k \<times> 'v) list \<Rightarrow> ('k \<times> 'v) list" where
  "dict_set k v [] = [(k, v)]"
| "dict_set k v ((k', v') # ps) = (if k' = k then (k, v) # ps else (k', v') # dict_set k v ps)"

definition dict_of :: "('k \<times> 'v) list \<Rightarrow> ('k \<times> 'v) list" where
  "dict_of ps = fold (\<lambda>(k, v) d. dict_set k v d) ps []"

text \<open>
  \<^verbatim>\<open>scan_once\<close>, \<^verbatim>\<open>JSONArray\<close> and \<^verbatim>\<open>JSONObject\<close>. \<open>parse_array\<close> starts at the
  first character of an item, \<open>parse_object\<close> just after the opening quote of a key.
  The first argument bounds the number of nested calls; each call is made after at least
  one character has been read, and \<open>json_loads\<close> starts with twice the length of the
  text plus one, a bound that is proved below never to decide the result.
\<close>

fun parse_value :: "nat \<Rightarrow> string \<Rightarrow> (json \<times> string) option"
and parse_array :: "nat \<Rightarrow> string \<Rightarrow> (json list \<times> string) option"
and parse_object :: "nat \<Rightarrow> string \<Rightarrow> ((string \<times> json) list \<times> string) option"
where
  "parse_value 0 s = None"
| "parse_value (Suc n) s =
     (case s of
        [] \<Rightarrow> None
      | c # cs \<Rightarrow>
          if c = CHR 0x22 then
            (case scanstring cs of None \<Rightarrow> None | Some (str, r) \<Rightarrow> Some (JStr str, r))
          else if c = CHR ''{'' then
            (case skip_ws cs of
               [] \<Rightarrow> None
             | c' # r \<Rightarrow>
                 if c' = CHR ''}'' then Some (JObj [], r)
                 else if c' = CHR 0x22 then
                   (case parse_object n r of
                      None \<Rightarrow> None
                    | Some (kvs, r') \<Rightarrow> Some (JObj (dict_of kvs), r'))
                 else None)
          else if c = CHR ''['' then
            (case skip_ws cs of
               [] \<Rightarrow> None
             | c' # r \<Rightarrow>
                 if c' = CHR '']'' then Some (JArr [], r)
                 else (case parse_array n (c' # r) of
                         None \<Rightarrow> None
                       | Some (xs, r') \<Rightarrow> Some (JArr xs, r')))
          else if take 4 s = ''null'' then Some (JNull, drop 4 s)
          else if take 4 s = ''true'' then Some (JBool True, drop 4 s)
          else if take 5 s = ''false'' then Some (JBool False, drop 5 s)
          else parse_number s)"
| "parse_array 0 s = None"
| "parse_array (Suc n) s =
     (case parse_value n s of
        None \<Rightarrow> None
      | Some (v, r) \<Rightarrow>
          (case skip_ws r of
             [] \<Rightarrow> None
           | c # r' \<Rightarrow>
               if c = CHR '']'' then Some ([v], r')
               else if c = CHR '','' then cons_result v (parse_array n (skip_ws r'))
               else None))"
| "parse_object 0 s = None"
| "parse_object (Suc n) s =
     (case scanstring s of
        None \<Rightarrow> None
      | Some (k, r) \<Rightarrow>
          (case skip_ws r of
             [] \<Rightarrow> None
           | c # r1 \<Rightarrow>
               if c \<noteq> CHR '':'' then None
               else (case parse_value n (skip_ws r1) of
                       None \<Rightarrow> None
                     | Some (v, r2) \<Rightarrow>
                         (case skip_ws r2 of
                            [] \<Rightarrow> None
                          | c' # r3 \<Rightarrow>
                              if c' = CHR ''}'' then Some ([(k, v)], r3)
                              else if c' = CHR '','' then
                                (case skip_ws r3 of
                                   [] \<Rightarrow> None
                                 | q # r4 \<Rightarrow>
                                     if q = CHR 0x22
                                     then cons_result (k, v) (parse_object n r4)
                                     else None)
                              else None))))"

text \<open>
  \<^verbatim>\<open>json.loads\<close>: white space may surround the value, anything else after it is an
  error (\<^verbatim>\<open>Extra data\<close>). \<open>None\<close> stands for \<^verbatim>\<open>JSONDecodeError\<close>.
\<close>

definition json_loads :: "string \<Rightarrow> json option" where
  "json_loads s =
     (case parse_value (Suc (2 * length s)) (skip_ws s) of
        None \<Rightarrow> None
      | Some (v, r) \<Rightarrow> if skip_ws r = [] then Some v else None)"

text \<open>
  A value is well formed when the keys of each of its objects are distinct, as the keys
  of a \<^verbatim>\<open>dict\<close> are.
\<close>

fun wf_json :: "json \<Rightarrow> bool" where
  "wf_json (JArr xs) = list_all wf_json xs"
| "wf_json (JObj kvs) = (distinct (map fst kvs) \<and> list_all (\<lambda>(k, v). wf_json v) kvs)"
| "wf_json v = True"

section \<open>The store\<close>

text \<open>
  The SQLite file behind \<^verbatim>\<open>db_path\<close>, as the rows of its tables. Every method opens
  a connection, runs its statements, commits and closes, so a method is a function from
  the store to the store. A \<^verbatim>\<open>datetime\<close> is represented by its \<^verbatim>\<open>isoformat()\<close> text,
  which is what the code stores and what SQLite compares (as text, byte by byte); the
  readings of the clock are arguments of the methods that call \<^verbatim>\<open>datetime.now()\<close>.
  A nullable text column is a \<open>string option\<close>, \<open>None\<close> for NULL.
\<close>

record dashboard_row =
  d_id :: string
  d_uid :: "string option"
  d_title :: string
  d_description :: "string option"
  d_tags :: string
  d_panels :: string
  d_variables :: string
  d_refresh_interval :: "string option"
  d_time_range :: "string option"
  d_created_at :: string

record metric_row =
  r_id :: nat
  r_name :: string
  r_labels :: string
  r_value :: real
  r_timestamp :: string
  r_created_at :: string

record db =
  dashboards :: "dashboard_row list"
  metrics :: "metric_row list"
  metrics_seq :: nat

definition init_db :: db where
  "init_db = \<lparr>dashboards = [], metrics = [], metrics_seq = 0\<rparr>"

section \<open>The metric store\<close>

record Metric =
  m_name :: string
  m_labels :: labels
  m_value :: real
  m_timestamp :: string

text \<open>
  \<^verbatim>\<open>INSERT OR IGNORE INTO metrics\<close> under \<^verbatim>\<open>UNIQUE(name, labels, timestamp)\<close>: a row
  whose key is already there is dropped without an error; otherwise the row is appended
  with the next AUTOINCREMENT id. SQLite takes the id before it meets the conflict, so
  the counter advances for a dropped row too.
\<close>

definition key_conflict :: "metric_row list \<Rightarrow> string \<Rightarrow> string \<Rightarrow> string \<Rightarrow> bool" where
  "key_conflict rows n l t =
     list_ex (\<lambda>r. r_name r = n \<and> r_labels r = l \<and> r_timestamp r = t) rows"

definition insert_or_ignore_metric ::
  "db \<Rightarrow> string \<Rightarrow> string \<Rightarrow> real \<Rightarrow> string \<Rightarrow> string \<Rightarrow> db" where
  "insert_or_ignore_metric s n l v t c =
     (if key_conflict (metrics s) n l t then s\<lparr>metrics_seq := Suc (metrics_seq s)\<rparr>
      else s\<lparr>metrics := metrics s @
                [\<lparr>r_id = Suc (metrics_seq s), r_name = n, r_labels = l, r_value = v,
                  r_timestamp = t, r_created_at = c\<rparr>],
             metrics_seq := Suc (metrics_seq s)\<rparr>)"

text \<open>
  \<^verbatim>\<open>push_metric(name, value, labels)\<close>; \<open>now1\<close> and \<open>now2\<close> are the two readings of
  \<^verbatim>\<open>datetime.now()\<close>, the sample's timestamp and the row's creation time.
\<close>

definition push_metric ::
  "db \<Rightarrow> string \<Rightarrow> string \<Rightarrow> string \<Rightarrow> real \<Rightarrow> labels option \<Rightarrow> db \<times> Metric" where
  "push_metric s now1 now2 n v ls =
     (let metric = \<lparr>m_name = n, m_labels = or_empty ls, m_value = v, m_timestamp = now1\<rparr>;
          labels_json = json_dumps (labels_value (or_empty ls))
      in (insert_or_ignore_metric s n labels_json v (m_timestamp metric) now2, metric))"

text \<open>
  \<^verbatim>\<open>query_metrics(name, labels, from_ts, to_ts, step_s)\<close>. The range is applied only
  when both bounds are given (a \<^verbatim>\<open>datetime\<close> is always truthy, so \<^verbatim>\<open>from_ts and to_ts\<close>
  holds exactly then). \<^verbatim>\<open>ORDER BY timestamp ASC\<close> is a sort on the timestamp text; the
  rows it sorts have one name and one labels text, so under the UNIQUE constraint their
  timestamps are distinct and the order is determined.
\<close>

definition query_metrics ::
  "db \<Rightarrow> string \<Rightarrow> labels option \<Rightarrow> string option \<Rightarrow> string option \<Rightarrow> int
     \<Rightarrow> (string \<times> real) list" where
  "query_metrics s n ls from_ts to_ts step_s =
     (let labels_json = json_dumps (labels_value (or_empty ls));
          results =
            (case (from_ts, to_ts) of
               (Some f, Some t) \<Rightarrow>
                 sort_key r_timestamp
                   (filter (\<lambda>r. r_name r = n \<and> r_labels r = labels_json
                                 \<and> f \<le> r_timestamp r \<and> r_timestamp r \<le> t) (metrics s))
             | _ \<Rightarrow>
                 sort_key r_timestamp
                   (filter (\<lambda>r. r_name r = n \<and> r_labels r = labels_json) (metrics s)))
      in map (\<lambda>r. (r_timestamp r, r_value r)) results)"

text \<open>\<^verbatim>\<open>get_current_value\<close>: the value of the row with the greatest timestamp.\<close>

definition get_current_value :: "db \<Rightarrow> string \<Rightarrow> labels option \<Rightarrow> real option" where
  "get_current_value s n ls =
     (let labels_json = json_dumps (labels_value (or_empty ls));
          results = rev (sort_key r_timestamp
                      (filter (\<lambda>r. r_name r = n \<and> r_labels r = labels_json) (metrics s)))
      in case results of [] \<Rightarrow> None | r # rs \<Rightarrow> Some (r_value r))"

text \<open>
  \<^verbatim>\<open>get_stats(name, labels, from_ts)\<close>. The result is a dict: either
  \<^verbatim>\<open>{"error": "No data found"}\<close>, modelled as \<open>Inl\<close> of the message, or the statistics,
  modelled as \<open>Inr\<close> of a record. \<^verbatim>\<open>min\<close> and \<^verbatim>\<open>max\<close> scan the list from its first
  element, replacing the best so far on a strict improvement; \<^verbatim>\<open>statistics.mean\<close> is
  the exact sum divided by the count; \<^verbatim>\<open>int(len(sorted_values) * 0.95)\<close> truncates the
  product. Values are real numbers here and the product is exact: the rounding of floats
  is not modelled.
\<close>

record stats =
  s_name :: string
  s_labels :: labels
  s_min :: real
  s_max :: real
  s_avg :: real
  s_p95 :: real
  s_count :: nat

definition py_min :: "real \<Rightarrow> real list \<Rightarrow> real" where
  "py_min v vs = fold (\<lambda>x m. if x < m then x else m) vs v"

definition py_max :: "real \<Rightarrow> real list \<Rightarrow> real" where
  "py_max v vs = fold (\<lambda>x m. if m < x then x else m) vs v"

definition mean :: "real list \<Rightarrow> real" where
  "mean vs = sum_list vs / real (length vs)"

definition p95_idx :: "nat \<Rightarrow> nat" where
  "p95_idx n = nat \<lfloor>real n * 0.95\<rfloor>"

definition get_stats ::
  "db \<Rightarrow> string \<Rightarrow> labels option \<Rightarrow> string option \<Rightarrow> string + stats" where
  "get_stats s n ls from_ts =
     (let ms = query_metrics s n ls from_ts None 60
      in case map snd ms of
           [] \<Rightarrow> Inl ''No data found''
         | v # vs \<Rightarrow>
             (let values = v # vs;
                  sorted_values = sort values;
                  idx = p95_idx (length sorted_values)
              in Inr \<lparr>s_name = n, s_labels = or_empty ls,
                      s_min = py_min v vs, s_max = py_max v vs,
                      s_avg = mean values,
                      s_p95 = (if idx < length sorted_values then sorted_values ! idx
                               else last sorted_values),
                      s_count = length values\<rparr>))"

section \<open>The dashboard store\<close>

text \<open>
  The exceptions the methods can raise: \<^verbatim>\<open>sqlite3.IntegrityError\<close> (a PRIMARY KEY or
  UNIQUE constraint fails), \<^verbatim>\<open>json.JSONDecodeError\<close>, \<^verbatim>\<open>AttributeError\<close> (a method
  looked up on a value of the wrong type), \<^verbatim>\<open>TypeError\<close>, and the error of
  \<^verbatim>\<open>sqlite3\<close> for a parameter of a type it cannot bind.
\<close>

datatype error = IntegrityError | JSONDecodeError | AttributeError | TypeError | BindError

record Position =
  pos_x :: int
  pos_y :: int
  pos_w :: int
  pos_h :: int

definition default_position :: Position where
  "default_position = \<lparr>pos_x = 0, pos_y = 0, pos_w = 12, pos_h = 8\<rparr>"

record Panel =
  p_id :: string
  p_title :: string
  p_type :: string
  p_datasource :: string
  p_query :: string
  p_options :: "(string \<times> json) list"
  p_position :: Position

record Variable =
  v_name :: string
  v_type :: string
  v_query :: string
  v_current_value :: string

text \<open>
  A \<^verbatim>\<open>Dashboard\<close> object. \<open>import_json\<close> fills \<^verbatim>\<open>uid\<close>, \<^verbatim>\<open>description\<close>,
  \<^verbatim>\<open>tags\<close>, \<^verbatim>\<open>refresh_interval\<close> and \<^verbatim>\<open>time_range\<close> with whatever the document
  holds, so these fields are JSON values; \<open>create_dashboard\<close> fills them with strings
  and a list of strings. Neither sets \<^verbatim>\<open>panels\<close> or \<^verbatim>\<open>variables\<close>.
\<close>

record Dashboard =
  b_id :: string
  b_uid :: json
  b_title :: string
  b_description :: json
  b_tags :: json
  b_panels :: "Panel list"
  b_variables :: "Variable list"
  b_refresh_interval :: json
  b_time_range :: json
  b_created_at :: string

text \<open>\<^verbatim>\<open>dataclasses.asdict\<close> of a panel and of a variable, in field order.\<close>

definition position_asdict :: "Position \<Rightarrow> json" where
  "position_asdict p =
     JObj [(''x'', JInt (pos_x p)), (''y'', JInt (pos_y p)),
           (''w'', JInt (pos_w p)), (''h'', JInt (pos_h p))]"

definition panel_asdict :: "Panel \<Rightarrow> json" where
  "panel_asdict p =
     JObj [(''id'', JStr (p_id p)), (''title'', JStr (p_title p)), (''type'', JStr (p_type p)),
           (''datasource'', JStr (p_datasource p)), (''query'', JStr (p_query p)),
           (''options'', JObj (p_options p)), (''position'', position_asdict (p_position p))]"

definition variable_asdict :: "Variable \<Rightarrow> json" where
  "variable_asdict v =
     JObj [(''name'', JStr (v_name v)), (''type'', JStr (v_type v)),
           (''query'', JStr (v_query v)), (''current_value'', JStr (v_current_value v))]"


text \<open>
  Binding a Python value to a parameter that goes into a TEXT column: \<^verbatim>\<open>None\<close> is
  NULL, a string is itself, an integer (and a bool, which is an integer) is stored as its
  decimal text (integers beyond 64 bits, which \<^verbatim>\<open>sqlite3\<close> refuses, are not
  modelled), a list or a dict cannot be bound.
\<close>

definition bind_text :: "json \<Rightarrow> error + string option" where
  "bind_text v =
     (case v of
        JNull \<Rightarrow> Inr None
      | JStr x \<Rightarrow> Inr (Some x)
      | JInt i \<Rightarrow> Inr (Some (str_int i))
      | JBool b \<Rightarrow> Inr (Some (if b then ''1'' else ''0''))
      | JArr xs \<Rightarrow> Inl BindError
      | JObj kvs \<Rightarrow> Inl BindError)"

text \<open>
  The ten parameters of the two INSERT statements, taken from the dashboard object and
  the serialized panels and variables.
\<close>

definition dashboard_row_of :: "Dashboard \<Rightarrow> string \<Rightarrow> string \<Rightarrow> error + dashboard_row" where
  "dashboard_row_of b panels_json variables_json =
     (case (bind_text (b_uid b), bind_text (b_description b),
            bind_text (b_refresh_interval b), bind_text (b_time_range b)) of
        (Inr uid, Inr description, Inr refresh, Inr time_range) \<Rightarrow>
          Inr \<lparr>d_id = b_id b, d_uid = uid, d_title = b_title b, d_description = description,
               d_tags = json_dumps (b_tags b), d_panels = panels_json,
               d_variables = variables_json, d_refresh_interval = refresh,
               d_time_range = time_range, d_created_at = b_created_at b\<rparr>
      | _ \<Rightarrow> Inl BindError)"

text \<open>
  A stored row stands in the way of a new one when it has the same \<^verbatim>\<open>id\<close>
  (PRIMARY KEY) or the same \<^verbatim>\<open>uid\<close> (UNIQUE; NULL conflicts with nothing).
\<close>

definition conflicts :: "dashboard_row \<Rightarrow> dashboard_row \<Rightarrow> bool" where
  "conflicts new r \<longleftrightarrow> d_id r = d_id new \<or> (d_uid new \<noteq> None \<and> d_uid r = d_uid new)"

text \<open>\<^verbatim>\<open>SELECT ... FROM dashboards WHERE id = ?\<close> followed by \<^verbatim>\<open>fetchone()\<close>.\<close>

definition select_dashboard :: "db \<Rightarrow> string \<Rightarrow> dashboard_row option" where
  "select_dashboard s i = find (\<lambda>r. d_id r = i) (dashboards s)"

text \<open>
  \<^verbatim>\<open>create_dashboard\<close>. \<open>fp\<close> is the fingerprint
  \<^verbatim>\<open>hashlib.md5(text.encode()).hexdigest()[:8]\<close>, a parameter of the model; \<open>now1\<close>
  and \<open>now2\<close> are the two readings of the clock. \<open>new_dashboard\<close> is the object the
  method builds before it touches the store; the plain INSERT raises
  \<^verbatim>\<open>IntegrityError\<close> on a conflict, and the method then returns nothing.
\<close>

definition new_dashboard ::
  "(string \<Rightarrow> string) \<Rightarrow> string \<Rightarrow> string \<Rightarrow> string \<Rightarrow> string \<Rightarrow> string list option
     \<Rightarrow> string \<Rightarrow> string \<Rightarrow> Dashboard" where
  "new_dashboard fp now1 now2 title description tags refresh_interval time_range =
     (let uid = fp title;
          dashboard_id = fp (title @ now1)
      in \<lparr>b_id = dashboard_id, b_uid = JStr uid, b_title = title,
           b_description = JStr description, b_tags = JArr (map JStr (or_empty tags)),
           b_panels = [], b_variables = [], b_refresh_interval = JStr refresh_interval,
           b_time_range = JStr time_range, b_created_at = now2\<rparr>)"

definition create_dashboard ::
  "(string \<Rightarrow> string) \<Rightarrow> db \<Rightarrow> string \<Rightarrow> string \<Rightarrow> string \<Rightarrow> string \<Rightarrow> string list option
     \<Rightarrow> string \<Rightarrow> string \<Rightarrow> error + db \<times> Dashboard" where
  "create_dashboard fp s now1 now2 title description tags refresh_interval time_range =
     (let dashboard = new_dashboard fp now1 now2 title description tags refresh_interval
                        time_range
      in case dashboard_row_of dashboard (json_dumps (JArr [])) (json_dumps (JArr [])) of
           Inl e \<Rightarrow> Inl e
         | Inr row \<Rightarrow>
             if list_ex (conflicts row) (dashboards s) then Inl IntegrityError
             else Inr (s\<lparr>dashboards := dashboards s @ [row]\<rparr>, dashboard))"

text \<open>
  \<^verbatim>\<open>add_panel\<close> and \<^verbatim>\<open>add_variable\<close>: the object is built first; when the SELECT
  finds the dashboard, its list is parsed, extended and written back with an UPDATE of
  the rows with that id; when it finds none, nothing is written. The object is returned
  in both cases.
\<close>

definition new_panel ::
  "(string \<Rightarrow> string) \<Rightarrow> string \<Rightarrow> string \<Rightarrow> string \<Rightarrow> string \<Rightarrow> string \<Rightarrow> Position option
     \<Rightarrow> (string \<times> json) list option \<Rightarrow> Panel" where
  "new_panel fp dashboard_id title panel_type query datasource position options =
     (let panel_id = fp (dashboard_id @ ''/'' @ title);
          pos = (case position of None \<Rightarrow> default_position | Some p \<Rightarrow> p)
      in \<lparr>p_id = panel_id, p_title = title, p_type = panel_type, p_datasource = datasource,
           p_query = query, p_options = or_empty options, p_position = pos\<rparr>)"

definition add_panel ::
  "(string \<Rightarrow> string) \<Rightarrow> db \<Rightarrow> string \<Rightarrow> string \<Rightarrow> string \<Rightarrow> string \<Rightarrow> string \<Rightarrow> Position option
     \<Rightarrow> (string \<times> json) list option \<Rightarrow> error + db \<times> Panel" where
  "add_panel fp s dashboard_id title panel_type query datasource position options =
     (let panel = new_panel fp dashboard_id title panel_type query datasource position options
      in case select_dashboard s dashboard_id of
           None \<Rightarrow> Inr (s, panel)
         | Some result \<Rightarrow>
             (case json_loads (d_panels result) of
                None \<Rightarrow> Inl JSONDecodeError
              | Some (JArr panels) \<Rightarrow>
                  Inr (s\<lparr>dashboards :=
                          map (\<lambda>r. if d_id r = dashboard_id
                                    then r\<lparr>d_panels :=
                                           json_dumps (JArr (panels @ [panel_asdict panel]))\<rparr>
                                    else r) (dashboards s)\<rparr>,
                       panel)
              | Some other \<Rightarrow> Inl AttributeError))"

definition new_variable :: "string \<Rightarrow> string \<Rightarrow> string \<Rightarrow> Variable" where
  "new_variable name query var_type =
     \<lparr>v_name = name, v_type = var_type, v_query = query, v_current_value = []\<rparr>"

definition add_variable ::
  "db \<Rightarrow> string \<Rightarrow> string \<Rightarrow> string \<Rightarrow> string \<Rightarrow> error + db \<times> Variable" where
  "add_variable s dashboard_id name query var_type =
     (let variable = new_variable name query var_type
      in case select_dashboard s dashboard_id of
           None \<Rightarrow> Inr (s, variable)
         | Some result \<Rightarrow>
             (case json_loads (d_variables result) of
                None \<Rightarrow> Inl JSONDecodeError
              | Some (JArr variables) \<Rightarrow>
                  Inr (s\<lparr>dashboards :=
                          map (\<lambda>r. if d_id r = dashboard_id
                                    then r\<lparr>d_variables :=
                                           json_dumps (JArr (variables
                                                             @ [variable_asdict variable]))\<rparr>
                                    else r) (dashboards s)\<rparr>,
                       variable)
              | Some other \<Rightarrow> Inl AttributeError))"






text \<open>
  The schema's constraint \<^verbatim>\<open>UNIQUE(name, labels, timestamp)\<close> on the metrics table,
  as a property of a store.
\<close>

definition unique_metrics :: "db \<Rightarrow> bool" where
  "unique_metrics s = distinct (map (\<lambda>r. (r_name r, r_labels r, r_timestamp r)) (metrics s))"

section \<open>Notions used in the proofs\<close>

text \<open>
  What may follow a value in a text: nothing, a comma, a closing bracket or white
  space. What a value starts with: a character that is neither white space nor a closing
  bracket.
\<close>

definition delim :: "string \<Rightarrow> bool" where
  "delim r = (case r of [] \<Rightarrow> True
              | c # cs \<Rightarrow> c = CHR '','' \<or> c = CHR '']'' \<or> c = CHR ''}'' \<or> is_ws c)"

definition starts_value :: "string \<Rightarrow> bool" where
  "starts_value s = (case s of [] \<Rightarrow> False
      | c # cs \<Rightarrow> \<not> is_ws c \<and> c \<noteq> CHR '']'' \<and> c \<noteq> CHR ''}'')"

text \<open>
  The text of one member of an object, for the serializer \<open>E\<close> of its value.
\<close>

definition item_text :: "(json \<Rightarrow> string) \<Rightarrow> string \<times> json \<Rightarrow> string" where
  "item_text E kv = encode_basestring_ascii (fst kv) @ key_separator @ E (snd kv)"

text \<open>
  The values read without a nested call, other than strings.
\<close>

definition parse_atom :: "string \<Rightarrow> (json \<times> string) option" where
  "parse_atom s =
     (if take 4 s = ''null'' then Some (JNull, drop 4 s)
      else if take 4 s = ''true'' then Some (JBool True, drop 4 s)
      else if take 5 s = ''false'' then Some (JBool False, drop 5 s)
      else parse_number s)"



section \<open>Example stores\<close>


text \<open>Two samples of one series, one in January and one in March.\<close>

definition two_samples :: db where
  "two_samples =
     fst (push_metric (fst (push_metric init_db ''2024-01-01T00:00:00'' ''2024-01-01T00:00:00''
                              ''cpu'' 1 None))
            ''2024-03-01T00:00:00'' ''2024-03-01T00:00:00'' ''cpu'' 3 None)"

text \<open>
  A stand-in for the fingerprint in the examples: the first eight characters of the
  text.
\<close>

definition example_fp :: "string \<Rightarrow> string" where
  "example_fp s = take 8 s"

text \<open>
  A store with one dashboard, as \<open>create_dashboard\<close>, \<open>add_panel\<close> and
  \<open>add_variable\<close> leave it, its only row, and the document \<open>export_json\<close> writes
  for it.
\<close>

definition ops_row :: dashboard_row where
  "ops_row =
     \<lparr>d_id = ''Ops2024-'', d_uid = Some ''Ops'', d_title = ''Ops'',
      d_description = Some ''desc'',
      d_tags = json_dumps (JArr [JStr ''prod'']),
      d_panels = json_dumps (JArr [panel_asdict
                   \<lparr>p_id = ''Ops2024-'', p_title = ''CPU'', p_type = ''timeseries'',
                    p_datasource = ''prometheus'', p_query = ''rate(cpu[5m])'',
                    p_options = [], p_position = default_position\<rparr>]),
      d_variables = json_dumps (JArr [variable_asdict
                   \<lparr>v_name = ''host'', v_type = ''query'', v_query = ''label_values(host)'',
                    v_current_value = []\<rparr>]),
      d_refresh_interval = Some ''30s'', d_time_range = Some ''1h'',
      d_created_at = ''2024-01-01T00:00:01''\<rparr>"

definition ops_store :: db where
  "ops_store = \<lparr>dashboards = [ops_row], metrics = [], metrics_seq = 0\<rparr>"


text \<open>
  The store after one \<open>create_dashboard\<close> on the empty store.
\<close>

definition ops_created :: db where
  "ops_created =
     \<lparr>dashboards =
        [\<lparr>d_id = ''Ops2024-'', d_uid = Some ''Ops'', d_title = ''Ops'',
          d_description = Some ''desc'', d_tags = json_dumps (JArr []),
          d_panels = json_dumps (JArr []), d_variables = json_dumps (JArr []),
          d_refresh_interval = Some ''30s'', d_time_range = Some ''1h'',
          d_created_at = ''2024-01-01T00:00:00''\<rparr>],
      metrics = [], metrics_seq = 0\<rparr>"




section \<open>Statistics\<close>

lemmas dumps_simps =
  json_dumps_def labels_value_def or_empty_def encode_basestring_ascii_def escape_char_def
  key_separator_def item_separator_def newline_indent_def

lemmas push_simps =
  push_metric_def insert_or_ignore_metric_def key_conflict_def init_db_def Let_def






lemma query_metrics_unbounded:
  "query_metrics s n ls from_ts None step =
     map (\<lambda>r. (r_timestamp r, r_value r))
       (sort_key r_timestamp
          (filter (\<lambda>r. r_name r = n \<and> r_labels r = json_dumps (labels_value (or_empty ls)))
             (metrics s)))"
  by (simp add: query_metrics_def Let_def split: option.splits)

lemma sort_key_Nil_iff: "sort_key f xs = [] \<longleftrightarrow> xs = []"
  by (metis length_sort length_0_conv)

lemma query_metrics_empty_iff:
  "query_metrics s n ls from_ts None step = [] \<longleftrightarrow>
     \<not> (\<exists>r \<in> set (metrics s). r_name r = n \<and> r_labels r = json_dumps (labels_value (or_empty ls)))"
  by (simp add: query_metrics_unbounded filter_empty_conv sort_key_Nil_iff)



text \<open>
  C5. When no stored sample has the name and the serialized labels asked for,
  \<open>get_stats\<close> returns the no-data result \<^verbatim>\<open>{"error": "No data found"}\<close>; and whenever
  it returns statistics, a matching sample exists and the count is positive, so no
  statistics object stands for an empty range.
\<close>

theorem get_stats_no_data:
  "(\<not> (\<exists>r \<in> set (metrics s). r_name r = n
          \<and> r_labels r = json_dumps (labels_value (or_empty ls)))
      \<longrightarrow> get_stats s n ls from_ts = Inl ''No data found'')
   \<and> (\<forall>st. get_stats s n ls from_ts = Inr st \<longrightarrow>
         (\<exists>r \<in> set (metrics s). r_name r = n
            \<and> r_labels r = json_dumps (labels_value (or_empty ls)))
         \<and> 0 < s_count st)"
proof -
  let ?q = "query_metrics s n ls from_ts None 60"
  have a: "?q = [] \<Longrightarrow> get_stats s n ls from_ts = Inl ''No data found''"
    by (simp add: get_stats_def)
  have b: "get_stats s n ls from_ts = Inr st \<Longrightarrow> ?q \<noteq> [] \<and> 0 < s_count st" for st
    by (auto simp: get_stats_def Let_def split: list.splits)
  show ?thesis using a b query_metrics_empty_iff [of s n ls from_ts 60] by blast
qed

text \<open>
  A store with two samples of \<^verbatim>\<open>cpu\<close> and none of \<^verbatim>\<open>mem\<close>.
\<close>

theorem get_stats_no_data_witness:
  "\<not> (\<exists>r \<in> set (metrics two_samples). r_name r = ''mem''
          \<and> r_labels r = json_dumps (labels_value (or_empty None)))
   \<and> get_stats two_samples ''mem'' None None = Inl ''No data found''
   \<and> (\<exists>r \<in> set (metrics two_samples). r_name r = ''cpu''
          \<and> r_labels r = json_dumps (labels_value (or_empty None)))
   \<and> (\<exists>st. get_stats two_samples ''cpu'' None None = Inr st \<and> 0 < s_count st)"
proof -
  have a: "\<not> (\<exists>r \<in> set (metrics two_samples). r_name r = ''mem''
          \<and> r_labels r = json_dumps (labels_value (or_empty None)))"
    by (simp add: two_samples_def push_simps)
  have b: "get_stats two_samples ''cpu'' None None =
     Inr \<lparr>s_name = ''cpu'', s_labels = [], s_min = 1, s_max = 3, s_avg = 2, s_p95 = 3,
          s_count = 2\<rparr>"
    by (simp add: get_stats_def query_metrics_def two_samples_def push_simps dumps_simps
        py_min_def py_max_def mean_def p95_idx_def Let_def)
  show ?thesis
    using a b get_stats_no_data [of two_samples "''mem''" None None]
      get_stats_no_data [of two_samples "''cpu''" None None]
    by auto
qed

text \<open>
  C8. The result of \<open>query_metrics\<close> does not depend on \<open>step_s\<close>.
\<close>

theorem query_metrics_step_ignored:
  "query_metrics s n ls from_ts to_ts step1 = query_metrics s n ls from_ts to_ts step2"
  by (simp add: query_metrics_def)

text \<open>
  C2 (the code departs from the claim). \<open>get_stats\<close> hands \<open>from_ts\<close> to
  \<open>query_metrics\<close> without an upper bound, and \<open>query_metrics\<close> applies a range only
  when both bounds are given: the January sample is counted although \<open>from_ts\<close> is in
  February.
\<close>

theorem get_stats_from_ts_not_applied:
  "get_stats two_samples ''cpu'' None (Some ''2024-02-01T00:00:00'') =
     Inr \<lparr>s_name = ''cpu'', s_labels = [], s_min = 1, s_max = 3, s_avg = 2, s_p95 = 3,
          s_count = 2\<rparr>"
  by (simp add: get_stats_def query_metrics_def two_samples_def push_simps dumps_simps
      py_min_def py_max_def mean_def p95_idx_def Let_def)

lemma get_stats_from_ts_irrelevant:
  "get_stats s n ls from_ts = get_stats s n ls None"
  by (simp add: get_stats_def query_metrics_unbounded)

section \<open>Pushing samples\<close>

lemma key_conflict_iff:
  "key_conflict rows n l t \<longleftrightarrow> (n, l, t) \<in> set (map (\<lambda>r. (r_name r, r_labels r, r_timestamp r)) rows)"
  by (auto simp: key_conflict_def list_ex_iff)

lemma unique_insert_or_ignore:
  "unique_metrics s \<Longrightarrow> unique_metrics (insert_or_ignore_metric s n l v t c)"
  by (auto simp: unique_metrics_def insert_or_ignore_metric_def key_conflict_iff)

lemma conflict_after_insert:
  "key_conflict (metrics (insert_or_ignore_metric s n l v t c)) n l t"
  by (auto simp: insert_or_ignore_metric_def key_conflict_iff)

lemma insert_twice:
  "insert_or_ignore_metric (insert_or_ignore_metric s n l v t c) n l v' t c' =
     (insert_or_ignore_metric s n l v t c)
       \<lparr>metrics_seq := Suc (metrics_seq (insert_or_ignore_metric s n l v t c))\<rparr>"
  using conflict_after_insert [of s n l v t c]
  by (subst (1) insert_or_ignore_metric_def) simp

lemma query_metrics_rows:
  "metrics s' = metrics s \<Longrightarrow>
     query_metrics s' n ls from_ts to_ts step = query_metrics s n ls from_ts to_ts step"
  by (simp add: query_metrics_def Let_def split: option.splits)

lemma unique_filter_key:
  assumes "distinct (map key rows)" "k \<in> key ` set rows"
  shows "\<exists>r. filter (\<lambda>r. key r = k) rows = [r] \<and> r \<in> set rows \<and> key r = k"
  using assms
proof (induction rows)
  case Nil then show ?case by simp
next
  case (Cons a rows)
  show ?case
  proof (cases "key a = k")
    case True
    from Cons.prems have "key a \<notin> key ` set rows" by simp
    then have "\<forall>r \<in> set rows. key r \<noteq> k" using True by blast
    then have "filter (\<lambda>r. key r = k) rows = []"
      by (simp add: filter_empty_conv)
    with True show ?thesis by simp
  next
    case False
    with Cons show ?thesis by auto
  qed
qed

lemma unique_init_db: "unique_metrics init_db"
  by (simp add: unique_metrics_def init_db_def)

lemma unique_push_metric: "unique_metrics s \<Longrightarrow> unique_metrics (fst (push_metric s t c n v ls))"
  by (simp add: push_metric_def Let_def unique_insert_or_ignore)

text \<open>
  C4. In a store that satisfies the UNIQUE constraint, a second push with the key
  (name, serialized labels, timestamp) of a first one returns its Metric as usual and
  leaves the rows of both tables as the first push left them; the range query from that
  timestamp to that timestamp then returns exactly one sample, the unbounded query holds
  exactly one sample with that timestamp, and when the key was new the sample kept is the
  first write's.
\<close>

theorem push_metric_idempotent:
  assumes "unique_metrics s"
  shows "(let (s1, m1) = push_metric s t c1 n v1 ls;
              (s2, m2) = push_metric s1 t c2 n v2 ls
          in metrics s2 = metrics s1 \<and> dashboards s2 = dashboards s1
             \<and> m2 = \<lparr>m_name = n, m_labels = or_empty ls, m_value = v2, m_timestamp = t\<rparr>
             \<and> (\<exists>v. query_metrics s2 n ls (Some t) (Some t) step = [(t, v)])
             \<and> length (filter (\<lambda>p. fst p = t) (query_metrics s2 n ls None None step)) = 1
             \<and> (\<not> key_conflict (metrics s) n (json_dumps (labels_value (or_empty ls))) t
                  \<longrightarrow> query_metrics s2 n ls (Some t) (Some t) step = [(t, v1)]))"
proof -
  define l where "l = json_dumps (labels_value (or_empty ls))"
  define s1 where "s1 = insert_or_ignore_metric s n l v1 t c1"
  define s2 where "s2 = s1\<lparr>metrics_seq := Suc (metrics_seq s1)\<rparr>"
  let ?key = "\<lambda>r. (r_name r, r_labels r, r_timestamp r)"
  have p1: "push_metric s t c1 n v1 ls =
      (s1, \<lparr>m_name = n, m_labels = or_empty ls, m_value = v1, m_timestamp = t\<rparr>)"
    by (simp add: push_metric_def Let_def s1_def l_def)
  have p2: "push_metric s1 t c2 n v2 ls =
      (s2, \<lparr>m_name = n, m_labels = or_empty ls, m_value = v2, m_timestamp = t\<rparr>)"
    by (simp add: push_metric_def Let_def s1_def s2_def l_def insert_twice)
  have rows: "metrics s2 = metrics s1" "dashboards s2 = dashboards s1"
    by (simp_all add: s2_def)
  note same = query_metrics_rows [OF rows(1)]
  have u1: "distinct (map ?key (metrics s1))"
    using unique_insert_or_ignore [OF assms] by (simp add: unique_metrics_def s1_def)
  have "key_conflict (metrics s1) n l t" unfolding s1_def by (rule conflict_after_insert)
  then have "(n, l, t) \<in> ?key ` set (metrics s1)" by (simp add: key_conflict_iff)
  from unique_filter_key [OF u1 this] obtain r where
    r: "filter (\<lambda>r. ?key r = (n, l, t)) (metrics s1) = [r]" "r \<in> set (metrics s1)"
       "?key r = (n, l, t)"
    by blast
  have f: "filter (\<lambda>r. r_name r = n \<and> r_labels r = l \<and> t \<le> r_timestamp r \<and> r_timestamp r \<le> t)
             (metrics s1) = [r]"
  proof -
    have "(\<lambda>r. r_name r = n \<and> r_labels r = l \<and> t \<le> r_timestamp r \<and> r_timestamp r \<le> t)
        = (\<lambda>r. ?key r = (n, l, t))" (is "?P = ?Q") by (auto simp: fun_eq_iff)
    then have "filter ?P (metrics s1) = filter ?Q (metrics s1)" by (rule arg_cong)
    with r(1) show ?thesis by (rule ssubst [where P = "\<lambda>x. x = [r]", rotated])
  qed
  have q: "query_metrics s1 n ls (Some t) (Some t) step = [(t, r_value r)]"
    using r(3) by (simp add: query_metrics_def Let_def l_def [symmetric] f)
  have cnt: "length (filter (\<lambda>p. fst p = t) (query_metrics s1 n ls None None step)) = 1"
  proof -
    let ?rows = "sort_key r_timestamp (filter (\<lambda>r. r_name r = n \<and> r_labels r = l) (metrics s1))"
    have "filter (\<lambda>p. fst p = t) (query_metrics s1 n ls None None step)
        = map (\<lambda>r. (r_timestamp r, r_value r)) (filter (\<lambda>r. r_timestamp r = t) ?rows)"
      by (simp add: query_metrics_unbounded l_def [symmetric] filter_map o_def)
    also have "filter (\<lambda>r. r_timestamp r = t) ?rows
        = sort_key r_timestamp (filter (\<lambda>r. ?key r = (n, l, t)) (metrics s1))"
      by (simp add: filter_sort conj_commute conj_left_commute)
    finally show ?thesis using r(1) by simp
  qed
  have first: "r_value r = v1" if "\<not> key_conflict (metrics s) n l t"
  proof -
    have "metrics s1 = metrics s @ [\<lparr>r_id = Suc (metrics_seq s), r_name = n, r_labels = l,
        r_value = v1, r_timestamp = t, r_created_at = c1\<rparr>]"
      using that by (simp add: s1_def insert_or_ignore_metric_def)
    moreover have "filter (\<lambda>r. ?key r = (n, l, t)) (metrics s) = []"
      using that by (auto simp: key_conflict_def list_ex_iff filter_empty_conv)
    ultimately show ?thesis using r(1) by auto
  qed
  show ?thesis
    unfolding l_def [symmetric] using q cnt first rows by (simp add: p1 p2 same)
qed

theorem push_metric_idempotent_witness:
  "unique_metrics init_db
   \<and> (let (s1, m1) = push_metric init_db ''2024-01-01T00:00:00'' ''2024-01-01T00:00:01''
                        ''cpu'' 42 (Some [(''host'', ''a'')]);
           (s2, m2) = push_metric s1 ''2024-01-01T00:00:00'' ''2024-01-01T00:00:02''
                        ''cpu'' 7 (Some [(''host'', ''a'')])
       in metrics s2 = metrics s1 \<and> dashboards s2 = dashboards s1
          \<and> query_metrics s2 ''cpu'' (Some [(''host'', ''a'')])
                (Some ''2024-01-01T00:00:00'') (Some ''2024-01-01T00:00:00'') 60
              = [(''2024-01-01T00:00:00'', 42)]
          \<and> query_metrics s2 ''cpu'' (Some [(''host'', ''a'')]) None None 60
              = [(''2024-01-01T00:00:00'', 42)])"
proof -
  have q: "query_metrics (fst (push_metric (fst (push_metric init_db ''2024-01-01T00:00:00''
                 ''2024-01-01T00:00:01'' ''cpu'' 42 (Some [(''host'', ''a'')])))
               ''2024-01-01T00:00:00'' ''2024-01-01T00:00:02'' ''cpu'' 7 (Some [(''host'', ''a'')])))
             ''cpu'' (Some [(''host'', ''a'')]) None None 60
              = [(''2024-01-01T00:00:00'', 42)]"
    by (simp add: query_metrics_def push_simps dumps_simps)
  have k: "\<not> key_conflict (metrics init_db) ''cpu''
      (json_dumps (labels_value (or_empty (Some [(''host'', ''a'')])))) ''2024-01-01T00:00:00''"
    by (simp add: key_conflict_def init_db_def)
  show ?thesis
    using push_metric_idempotent [OF unique_init_db, of "''2024-01-01T00:00:00''"
        "''2024-01-01T00:00:01''" "''cpu''" 42 "Some [(''host'', ''a'')]"
        "''2024-01-01T00:00:02''" 7 60] q k unique_init_db
    by (auto simp: Let_def split: prod.splits)
qed

section \<open>The parser reads what the serializer writes\<close>

lemma not_ws_simps [simp]:
  "\<not> is_ws (CHR '','')" "\<not> is_ws (CHR '']'')" "\<not> is_ws (CHR ''}'')" "\<not> is_ws (CHR '':'')"
  "\<not> is_ws (CHR 0x22)" "\<not> is_ws (CHR ''['')" "\<not> is_ws (CHR ''{'')" "is_ws (CHR '' '')"
  "is_ws (CHR 0x0A)"
  by (simp_all add: is_ws_def)

lemma skip_ws_Nil [simp]: "skip_ws [] = []"
  by (simp add: skip_ws_def)

lemma skip_ws_Cons [simp]: "\<not> is_ws c \<Longrightarrow> skip_ws (c # r) = c # r"
  by (simp add: skip_ws_def)

lemma skip_ws_append: "list_all is_ws w \<Longrightarrow> skip_ws (w @ s) = skip_ws s"
  by (simp add: skip_ws_def dropWhile_append2 list_all_iff)

lemma skip_ws_space [simp]: "skip_ws (CHR '' '' # s) = skip_ws s"
  by (simp add: skip_ws_def)

lemma ws_newline_indent: "list_all is_ws (newline_indent ind lvl)"
  by (cases ind) (simp_all add: newline_indent_def list_all_iff)

lemma item_separator_split:
  "\<exists>w. item_separator ind @ newline_indent ind lvl = CHR '','' # w \<and> list_all is_ws w"
  using ws_newline_indent [of ind lvl]
  by (cases ind) (simp_all add: item_separator_def)

lemma cons_result_Some [simp]: "cons_result x (Some (xs, r)) = Some (x # xs, r)"
  by (simp add: cons_result_def)

lemma hex_val_hex_digit: "d < 16 \<Longrightarrow> hex_val (hex_digit d) = Some d"
proof -
  assume "d < 16"
  then have "d = 0 \<or> d = 1 \<or> d = 2 \<or> d = 3 \<or> d = 4 \<or> d = 5 \<or> d = 6 \<or> d = 7
      \<or> d = 8 \<or> d = 9 \<or> d = 10 \<or> d = 11 \<or> d = 12 \<or> d = 13 \<or> d = 14 \<or> d = 15"
    by arith
  then show ?thesis
    by (elim disjE) (simp_all add: hex_val_def hex_digit_def)
qed

lemma scanstring_escape:
  "scanstring (escape_char c @ r) = cons_result c (scanstring r)"
proof -
  have hi: "hex_val (hex_digit (of_char c div 16)) = Some (of_char c div 16)"
    by (rule hex_val_hex_digit) (simp add: less_mult_imp_div_less)
  have lo: "hex_val (hex_digit (of_char c mod 16)) = Some (of_char c mod 16)"
    by (rule hex_val_hex_digit) simp
  have z: "hex_val (CHR ''0'') = Some 0" by (simp add: hex_val_def)
  have chr: "char_of (of_char c div 16 * 16 + of_char c mod 16 :: nat) = c"
    by simp
  have lt: "(of_char c div 16 * 16 + of_char c mod 16 :: nat) < 256"
    by simp
  show ?thesis
    unfolding escape_char_def
    by (simp add: unescape_def hi lo z chr lt Let_def)
qed

lemma scanstring_encode:
  "scanstring (concat (map escape_char s) @ CHR 0x22 # r) = Some (s, r)"
  by (induction s) (simp_all add: scanstring_escape)

lemma char_of_48: "char_of (48 :: nat) = CHR ''0''"
proof -
  have "(of_char (char_of (48 :: nat)) :: nat) = of_char (CHR ''0'')" by simp
  then show ?thesis by (simp only: of_char_eq_iff)
qed

lemma of_char_digit_char: "d < 10 \<Longrightarrow> (of_char (digit_char d) :: nat) = 48 + d"
  by (simp add: digit_char_def)

lemma is_digit_digit_char: "d < 10 \<Longrightarrow> is_digit (digit_char d)"
  by (simp add: is_digit_def of_char_digit_char)

lemma digit_val_digit_char: "d < 10 \<Longrightarrow> digit_val (digit_char d) = d"
  by (simp add: digit_val_def of_char_digit_char)

lemma digit_char_zero_iff: "d < 10 \<Longrightarrow> digit_char d = CHR ''0'' \<longleftrightarrow> d = 0"
proof
  assume d: "d < 10" and "digit_char d = CHR ''0''"
  then have "(of_char (digit_char d) :: nat) = of_char (CHR ''0'')" by simp
  with d show "d = 0" by (simp add: of_char_digit_char)
next
  assume "d = 0" then show "digit_char d = CHR ''0''" by (simp add: digit_char_def char_of_48)
qed

lemma str_nat_digits: "list_all is_digit (str_nat n)"
proof (induction n rule: str_nat.induct)
  case (1 n)
  show ?case
  proof (cases "n < 10")
    case True
    then show ?thesis by (subst str_nat.simps) (simp add: is_digit_digit_char)
  next
    case False
    with 1 show ?thesis by (subst str_nat.simps) (simp add: is_digit_digit_char)
  qed
qed

lemma str_nat_not_Nil: "str_nat n \<noteq> []"
  by (subst str_nat.simps) simp

lemma nat_of_digits_snoc: "nat_of_digits (ds @ [c]) = 10 * nat_of_digits ds + digit_val c"
  by (simp add: nat_of_digits_def)

lemma nat_of_digits_str_nat: "nat_of_digits (str_nat n) = n"
proof (induction n rule: str_nat.induct)
  case (1 n)
  show ?case
  proof (cases "n < 10")
    case True
    then show ?thesis
      by (subst str_nat.simps) (simp add: nat_of_digits_def digit_val_digit_char)
  next
    case False
    with 1 have "nat_of_digits (str_nat (n div 10)) = n div 10" by simp
    with False show ?thesis
      by (subst str_nat.simps) (simp add: nat_of_digits_snoc digit_val_digit_char)
  qed
qed

lemma hd_str_nat_zero: "hd (str_nat n) = CHR ''0'' \<longleftrightarrow> n = 0"
proof (induction n rule: str_nat.induct)
  case (1 n)
  show ?case
  proof (cases "n < 10")
    case True
    then show ?thesis by (subst str_nat.simps) (simp add: digit_char_zero_iff)
  next
    case False
    then have "n div 10 \<noteq> 0" by simp
    with 1 False have "hd (str_nat (n div 10)) \<noteq> CHR ''0''" by simp
    with False show ?thesis
      by (subst str_nat.simps) (simp add: str_nat_not_Nil)
  qed
qed

lemma str_nat_zero: "str_nat 0 = ''0''"
  by (subst str_nat.simps) (simp add: digit_char_def char_of_48)

lemma not_digit_delim: "delim r \<Longrightarrow> r = [] \<or> \<not> is_digit (hd r)"
  by (auto simp: delim_def is_digit_def is_ws_def split: list.splits)

lemma not_float_delim: "delim r \<Longrightarrow> \<not> number_is_float r"
  by (auto simp: delim_def number_is_float_def is_ws_def split: list.splits)

lemma takeWhile_digits:
  "list_all is_digit ds \<Longrightarrow> r = [] \<or> \<not> is_digit (hd r) \<Longrightarrow> takeWhile is_digit (ds @ r) = ds"
  by (cases r) (auto simp: list_all_iff takeWhile_append2)

lemma dropWhile_digits:
  "list_all is_digit ds \<Longrightarrow> r = [] \<or> \<not> is_digit (hd r) \<Longrightarrow> dropWhile is_digit (ds @ r) = r"
  by (cases r) (auto simp: list_all_iff dropWhile_append2)

lemma match_integer_str_nat:
  assumes "r = [] \<or> \<not> is_digit (hd r)"
  shows "match_integer (str_nat n @ r) = Some (str_nat n, r)"
proof (cases "n = 0")
  case True
  then show ?thesis by (simp add: str_nat_zero match_integer_def)
next
  case False
  obtain c cs where s: "str_nat n = c # cs"
    using str_nat_not_Nil [of n] by (cases "str_nat n") auto
  have c: "c \<noteq> CHR ''0''" using hd_str_nat_zero [of n] False s by simp
  have d: "is_digit c" "list_all is_digit cs" using str_nat_digits [of n] s by simp_all
  show ?thesis
    using c d assms by (simp add: s match_integer_def takeWhile_digits dropWhile_digits)
qed

lemma hd_str_nat_not_minus: "hd (str_nat n) \<noteq> CHR ''-''"
proof -
  obtain c cs where s: "str_nat n = c # cs"
    using str_nat_not_Nil [of n] by (cases "str_nat n") auto
  have "is_digit c" using str_nat_digits [of n] s by simp
  then have "c \<noteq> CHR ''-''" by (auto simp: is_digit_def)
  with s show ?thesis by simp
qed

lemma parse_number_str_int:
  assumes "delim r"
  shows "parse_number (str_int i @ r) = Some (JInt i, r)"
proof -
  have nd: "r = [] \<or> \<not> is_digit (hd r)" using assms by (rule not_digit_delim)
  have nf: "\<not> number_is_float r" using assms by (rule not_float_delim)
  show ?thesis
  proof (cases "i < 0")
    case True
    then show ?thesis
      using nf by (simp add: str_int_def parse_number_def match_integer_str_nat [OF nd]
          nat_of_digits_str_nat)
  next
    case False
    obtain c cs where s: "str_nat (nat i) = c # cs"
      using str_nat_not_Nil [of "nat i"] by (cases "str_nat (nat i)") auto
    have c: "c \<noteq> CHR ''-''" using hd_str_nat_not_minus [of "nat i"] s by simp
    have "parse_number (str_nat (nat i) @ r) = Some (JInt (int (nat i)), r)"
      using c nf match_integer_str_nat [OF nd, of "nat i"]
      by (simp add: parse_number_def s nat_of_digits_str_nat [of "nat i", unfolded s])
    with False show ?thesis by (simp add: str_int_def)
  qed
qed

lemma starts_value_Cons: "starts_value s \<Longrightarrow> \<exists>c cs. s = c # cs \<and> \<not> is_ws c \<and> c \<noteq> CHR '']'' \<and> c \<noteq> CHR ''}''"
  by (cases s) (simp_all add: starts_value_def)

lemma starts_value_append [simp]: "starts_value s \<Longrightarrow> starts_value (s @ t)"
  by (cases s) (simp_all add: starts_value_def)

lemma starts_value_str_int: "starts_value (str_int i)"
proof -
  obtain c cs where s: "str_nat (nat i) = c # cs"
    using str_nat_not_Nil [of "nat i"] by (cases "str_nat (nat i)") auto
  have "is_digit c" using str_nat_digits [of "nat i"] s by simp
  then have "\<not> is_ws c \<and> c \<noteq> CHR '']'' \<and> c \<noteq> CHR ''}''"
    by (auto simp: is_digit_def is_ws_def)
  then show ?thesis
    by (simp add: str_int_def starts_value_def s is_ws_def)
qed

lemma starts_value_iterencode: "starts_value (iterencode ind v lvl)"
  by (cases v) (simp_all add: starts_value_str_int,
      simp_all add: starts_value_def encode_basestring_ascii_def is_ws_def)

lemma skip_ws_starts: "list_all is_ws w \<Longrightarrow> starts_value s \<Longrightarrow> skip_ws (w @ s @ t) = s @ t"
  by (cases s) (simp_all add: starts_value_def skip_ws_append)

lemma delim_simps [simp]:
  "delim []" "delim (CHR '','' # r)" "delim (CHR '']'' # r)" "delim (CHR ''}'' # r)"
  by (simp_all add: delim_def)

lemma delim_ws_append: "list_all is_ws w \<Longrightarrow> delim r \<Longrightarrow> delim (w @ r)"
  by (cases w) (simp_all add: delim_def)

lemma parse_value_string:
  "parse_value (Suc n) (CHR 0x22 # cs) =
     (case scanstring cs of None \<Rightarrow> None | Some (str, r) \<Rightarrow> Some (JStr str, r))"
  by simp

lemma parse_value_array:
  "parse_value (Suc n) (CHR ''['' # cs) =
     (case skip_ws cs of
        [] \<Rightarrow> None
      | c' # r \<Rightarrow>
          if c' = CHR '']'' then Some (JArr [], r)
          else (case parse_array n (c' # r) of
                  None \<Rightarrow> None
                | Some (xs, r') \<Rightarrow> Some (JArr xs, r')))"
  by simp

lemma parse_value_object:
  "parse_value (Suc n) (CHR ''{'' # cs) =
     (case skip_ws cs of
        [] \<Rightarrow> None
      | c' # r \<Rightarrow>
          if c' = CHR ''}'' then Some (JObj [], r)
          else if c' = CHR 0x22 then
            (case parse_object n r of
               None \<Rightarrow> None
             | Some (kvs, r') \<Rightarrow> Some (JObj (dict_of kvs), r'))
          else None)"
  by simp

lemma parse_value_null: "parse_value (Suc n) (''null'' @ r) = Some (JNull, r)"
  by simp

lemma parse_value_true: "parse_value (Suc n) (''true'' @ r) = Some (JBool True, r)"
  by simp

lemma parse_value_false: "parse_value (Suc n) (''false'' @ r) = Some (JBool False, r)"
  by simp

lemma parse_value_number:
  assumes "delim r"
  shows "parse_value (Suc n) (str_int i @ r) = Some (JInt i, r)"
proof -
  obtain c cs where s: "str_int i = c # cs" and c: "c = CHR ''-'' \<or> is_digit c"
  proof -
    obtain d ds where s: "str_nat (nat (- i)) = d # ds"
      using str_nat_not_Nil [of "nat (- i)"] by (cases "str_nat (nat (- i))") auto
    obtain d' ds' where s': "str_nat (nat i) = d' # ds'"
      using str_nat_not_Nil [of "nat i"] by (cases "str_nat (nat i)") auto
    have "is_digit d'" using str_nat_digits [of "nat i"] s' by simp
    then show ?thesis using that s s' by (cases "i < 0") (simp_all add: str_int_def)
  qed
  have ne: "c \<noteq> CHR 0x22" "c \<noteq> CHR ''{''" "c \<noteq> CHR ''[''" "c \<noteq> CHR ''n''" "c \<noteq> CHR ''t''"
    "c \<noteq> CHR ''f''"
    using c by (auto simp: is_digit_def)
  have "parse_value (Suc n) (c # cs @ r) = parse_number (c # cs @ r)"
    using ne by simp
  then show ?thesis
    using parse_number_str_int [OF assms, of i] by (simp add: s)
qed

declare parse_value.simps [simp del] parse_array.simps [simp del] parse_object.simps [simp del]

lemma intercalate_Cons_Cons:
  "ys \<noteq> [] \<Longrightarrow> intercalate sep (x # ys) = x @ sep @ intercalate sep ys"
  by (cases ys) simp_all

lemma length_intercalate_ge:
  "x \<in> set xs \<Longrightarrow> length x \<le> length (intercalate sep xs)"
  by (induction sep xs rule: intercalate.induct) auto

lemma parse_array_items:
  assumes "xs \<noteq> []"
    and "\<And>x m r. x \<in> set xs \<Longrightarrow> length (E x) \<le> m \<Longrightarrow> delim r
            \<Longrightarrow> parse_value m (E x @ r) = Some (x, r)"
    and "\<And>x. x \<in> set xs \<Longrightarrow> starts_value (E x)"
    and "list_all is_ws w1" and "list_all is_ws w2"
    and "length (intercalate (CHR '','' # w1) (map E xs)) < n"
  shows "parse_array n (intercalate (CHR '','' # w1) (map E xs) @ w2 @ CHR '']'' # rest)
         = Some (xs, rest)"
  using assms
proof (induction xs arbitrary: n rule: list_nonempty_induct)
  case (single x)
  from single.prems(5) obtain m where n: "n = Suc m" and m: "length (E x) \<le> m"
    by (cases n) auto
  have d: "delim (w2 @ CHR '']'' # rest)"
    using single.prems(4) by (simp add: delim_ws_append)
  have pv: "parse_value m (E x @ w2 @ CHR '']'' # rest) = Some (x, w2 @ CHR '']'' # rest)"
    using single.prems(1) [OF _ m d] by simp
  have sk: "skip_ws (w2 @ CHR '']'' # rest) = CHR '']'' # rest"
    using single.prems(4) by (simp add: skip_ws_append)
  show ?case
    by (simp add: n parse_array.simps pv sk)
next
  case (cons x xs)
  let ?sep = "CHR '','' # w1"
  let ?tail = "intercalate ?sep (map E xs) @ w2 @ CHR '']'' # rest"
  have ne: "map E xs \<noteq> []" using cons.hyps by simp
  have inter: "intercalate ?sep (E x # map E xs) = E x @ ?sep @ intercalate ?sep (map E xs)"
    using ne by (rule intercalate_Cons_Cons)
  from cons.prems(5) obtain m where n: "n = Suc m"
    and m: "length (E x) + 1 + length w1 + length (intercalate ?sep (map E xs)) \<le> m"
    using inter by (cases n) auto
  have pv: "parse_value m (E x @ CHR '','' # w1 @ ?tail) = Some (x, CHR '','' # w1 @ ?tail)"
  proof (rule cons.prems(1))
    show "length (E x) \<le> m" using m by simp
  qed simp_all
  obtain y ys where xs: "xs = y # ys" using cons.hyps by (cases xs) auto
  have st: "starts_value (intercalate ?sep (map E xs))"
    using cons.prems(2) [of y] by (cases ys) (simp_all add: xs)
  have sk: "skip_ws (w1 @ ?tail) = ?tail"
    using skip_ws_starts [OF cons.prems(3) st] by simp
  have x1: "0 < length (E x)"
    using cons.prems(2) [of x] by (cases "E x") (simp_all add: starts_value_def)
  have rec: "parse_array m ?tail = Some (xs, rest)"
  proof (rule cons.IH)
    show "length (intercalate ?sep (map E xs)) < m" using m x1 by simp
  qed (use cons.prems in auto)
  show ?case
    by (simp add: n inter parse_array.simps(2) [of m] pv sk rec)
qed

lemma item_text_Cons:
  "item_text E (k, v) = CHR 0x22 # concat (map escape_char k) @ CHR 0x22 # CHR '':'' # CHR '' '' # E v"
  by (simp add: item_text_def encode_basestring_ascii_def key_separator_def)

lemma intercalate_items_quote:
  "kvs \<noteq> [] \<Longrightarrow> intercalate sep (map (item_text E) kvs)
      = CHR 0x22 # tl (intercalate sep (map (item_text E) kvs))"
proof (cases kvs)
  case Nil then show "kvs \<noteq> [] \<Longrightarrow> ?thesis" by simp
next
  case (Cons kv rest)
  obtain k v where kv: "kv = (k, v)" by (cases kv)
  show ?thesis by (cases rest) (simp_all add: Cons kv item_text_Cons)
qed

lemma parse_object_step:
  assumes pv: "parse_value m (E v @ r) = Some (v, r)" and st: "starts_value (E v)"
  shows "parse_object (Suc m) (tl (item_text E (k, v)) @ r) =
     (case skip_ws r of
        [] \<Rightarrow> None
      | c' # r3 \<Rightarrow>
          if c' = CHR ''}'' then Some ([(k, v)], r3)
          else if c' = CHR '','' then
            (case skip_ws r3 of
               [] \<Rightarrow> None
             | q # r4 \<Rightarrow> if q = CHR 0x22 then cons_result (k, v) (parse_object m r4) else None)
          else None)"
proof -
  have sk: "skip_ws (E v @ r) = E v @ r"
    using skip_ws_starts [of "[]" "E v" r] st by simp
  show ?thesis
    by (simp add: item_text_Cons parse_object.simps(2) scanstring_encode sk pv)
qed

lemma parse_object_items:
  assumes "kvs \<noteq> []"
    and "\<And>k v m r. (k, v) \<in> set kvs \<Longrightarrow> length (E v) \<le> m \<Longrightarrow> delim r
            \<Longrightarrow> parse_value m (E v @ r) = Some (v, r)"
    and "\<And>k v. (k, v) \<in> set kvs \<Longrightarrow> starts_value (E v)"
    and "list_all is_ws w1" and "list_all is_ws w2"
    and "length (intercalate (CHR '','' # w1) (map (item_text E) kvs)) < n"
  shows "parse_object n (tl (intercalate (CHR '','' # w1) (map (item_text E) kvs))
                          @ w2 @ CHR ''}'' # rest)
         = Some (kvs, rest)"
  using assms
proof (induction kvs arbitrary: n rule: list_nonempty_induct)
  case (single kv)
  obtain k v where kv: "kv = (k, v)" by (cases kv)
  have le: "length (E v) \<le> length (item_text E (k, v))" by (simp add: item_text_Cons)
  from single.prems(5) obtain m where n: "n = Suc m" and m: "length (E v) \<le> m"
    using le by (cases n) (auto simp: kv)
  have pv: "parse_value m (E v @ w2 @ CHR ''}'' # rest) = Some (v, w2 @ CHR ''}'' # rest)"
  proof (rule single.prems(1))
    show "(k, v) \<in> set [kv]" by (simp add: kv)
    show "delim (w2 @ CHR ''}'' # rest)" using single.prems(4) by (simp add: delim_ws_append)
  qed (rule m)
  have st: "starts_value (E v)" using single.prems(2) [of k v] by (simp add: kv)
  have sk: "skip_ws (w2 @ CHR ''}'' # rest) = CHR ''}'' # rest"
    using single.prems(4) by (simp add: skip_ws_append)
  show ?case
    using parse_object_step [where E = E and v = v and k = k, OF pv st] by (simp add: n kv sk)
next
  case (cons kv kvs)
  obtain k v where kv: "kv = (k, v)" by (cases kv)
  let ?sep = "CHR '','' # w1"
  let ?I = "intercalate ?sep (map (item_text E) kvs)"
  let ?tail = "tl ?I @ w2 @ CHR ''}'' # rest"
  have ne: "map (item_text E) kvs \<noteq> []" using cons.hyps by simp
  have inter: "intercalate ?sep (item_text E (k, v) # map (item_text E) kvs)
      = item_text E (k, v) @ ?sep @ ?I"
    using ne by (rule intercalate_Cons_Cons)
  have q: "?I = CHR 0x22 # tl ?I" using cons.hyps by (rule intercalate_items_quote)
  have le: "length (E v) \<le> length (item_text E (k, v))" by (simp add: item_text_Cons)
  from cons.prems(5) obtain m where n: "n = Suc m"
    and m: "length (item_text E (k, v)) + 1 + length w1 + length ?I \<le> m"
    using inter by (cases n) (auto simp: kv)
  have pv: "parse_value m (E v @ CHR '','' # w1 @ ?I @ w2 @ CHR ''}'' # rest)
      = Some (v, CHR '','' # w1 @ ?I @ w2 @ CHR ''}'' # rest)"
  proof (rule cons.prems(1))
    show "(k, v) \<in> set (kv # kvs)" by (simp add: kv)
    show "length (E v) \<le> m" using m le by simp
  qed simp
  have st: "starts_value (E v)" using cons.prems(2) [of k v] by (simp add: kv)
  have sk: "skip_ws (w1 @ ?I @ w2 @ CHR ''}'' # rest) = CHR 0x22 # ?tail"
  proof -
    have "skip_ws (w1 @ ?I @ w2 @ CHR ''}'' # rest) = skip_ws (?I @ w2 @ CHR ''}'' # rest)"
      using cons.prems(3) by (rule skip_ws_append)
    also have "\<dots> = skip_ws (CHR 0x22 # ?tail)" by (subst q) simp
    finally show ?thesis by simp
  qed
  have rec: "parse_object m ?tail = Some (kvs, rest)"
  proof (rule cons.IH)
    show "length ?I < m" using m by (simp add: item_text_Cons)
    show "parse_value m' (E v' @ r') = Some (v', r')"
      if "(k', v') \<in> set kvs" "length (E v') \<le> m'" "delim r'" for k' v' m' r'
      using that by (intro cons.prems(1) [of k']) simp_all
    show "starts_value (E v')" if "(k', v') \<in> set kvs" for k' v'
      using that by (intro cons.prems(2) [of k']) simp
  qed (use cons.prems in simp_all)
  have "tl (item_text E (k, v) @ ?sep @ ?I) @ w2 @ CHR ''}'' # rest
      = tl (item_text E (k, v)) @ (CHR '','' # w1 @ ?I @ w2 @ CHR ''}'' # rest)"
    by (simp add: item_text_Cons)
  then show ?case
    using parse_object_step [where E = E and v = v and k = k, OF pv st]
    by (simp add: n kv inter sk rec)
qed

lemma dict_set_fresh: "k \<notin> fst ` set d \<Longrightarrow> dict_set k v d = d @ [(k, v)]"
  by (induction d) auto

lemma fold_dict_set_distinct:
  "distinct (map fst (acc @ ps)) \<Longrightarrow> fold (\<lambda>(k, v) d. dict_set k v d) ps acc = acc @ ps"
proof (induction ps arbitrary: acc)
  case Nil then show ?case by simp
next
  case (Cons p ps)
  obtain k v where p: "p = (k, v)" by (cases p)
  from Cons.prems have fresh: "k \<notin> fst ` set acc" by (auto simp: p)
  from Cons.prems have "distinct (map fst ((acc @ [(k, v)]) @ ps))" by (simp add: p)
  from Cons.IH [OF this] show ?case by (simp add: p dict_set_fresh [OF fresh])
qed

lemma dict_of_distinct: "distinct (map fst kvs) \<Longrightarrow> dict_of kvs = kvs"
  using fold_dict_set_distinct [of "[]" kvs] by (simp add: dict_of_def)

lemma iterencode_object_items:
  "map (\<lambda>(k, v). encode_basestring_ascii k @ key_separator @ iterencode ind v l) kvs
     = map (item_text (\<lambda>v. iterencode ind v l)) kvs"
  by (simp add: item_text_def case_prod_beta)

lemma parse_value_iterencode:
  "wf_json v \<Longrightarrow> length (iterencode ind v lvl) \<le> n \<Longrightarrow> delim rest
     \<Longrightarrow> parse_value n (iterencode ind v lvl @ rest) = Some (v, rest)"
proof (induction v arbitrary: n lvl rest)
  case JNull
  then obtain m where "n = Suc m" by (cases n) auto
  then show ?case using parse_value_null [of m rest] by simp
next
  case (JBool b)
  then obtain m where "n = Suc m" by (cases n) (auto split: if_splits)
  then show ?case
    using parse_value_true [of m rest] parse_value_false [of m rest] by simp
next
  case (JInt i)
  have "str_int i \<noteq> []" using starts_value_str_int [of i] by (auto simp: starts_value_def)
  with JInt obtain m where "n = Suc m" by (cases n) auto
  then show ?case using parse_value_number [OF JInt.prems(3), of m i] by simp
next
  case (JStr s)
  then obtain m where "n = Suc m" by (cases n) (auto simp: encode_basestring_ascii_def)
  then show ?case
    by (simp add: encode_basestring_ascii_def parse_value_string scanstring_encode)
next
  case (JArr xs)
  show ?case
  proof (cases "xs = []")
    case True
    with JArr.prems obtain m where "n = Suc m" by (cases n) auto
    with True show ?thesis by (simp add: parse_value_array)
  next
    case False
    let ?E = "\<lambda>x. iterencode ind x (Suc lvl)"
    obtain w1 where sep: "item_separator ind @ newline_indent ind (Suc lvl) = CHR '','' # w1"
      and w1: "list_all is_ws w1"
      using item_separator_split [of ind "Suc lvl"] by blast
    let ?I = "intercalate (CHR '','' # w1) (map ?E xs)"
    let ?n1 = "newline_indent ind (Suc lvl)"
    let ?n0 = "newline_indent ind lvl"
    have enc: "iterencode ind (JArr xs) lvl = CHR ''['' # ?n1 @ ?I @ ?n0 @ '']''"
      using False by (simp add: sep)
    from JArr.prems(2) obtain m where n: "n = Suc m" and m: "length ?I < m"
      unfolding enc by (cases n) auto
    obtain y ys where xs: "xs = y # ys" using False by (cases xs) auto
    have st: "starts_value ?I"
      using starts_value_iterencode [of ind y "Suc lvl"] by (cases ys) (simp_all add: xs)
    then obtain c cs where I: "?I = c # cs" and c: "\<not> is_ws c" "c \<noteq> CHR '']''"
      using starts_value_Cons by blast
    have sk: "skip_ws (?n1 @ ?I @ ?n0 @ CHR '']'' # rest) = ?I @ ?n0 @ CHR '']'' # rest"
      using skip_ws_starts [OF ws_newline_indent st] by simp
    have items: "parse_array m (?I @ ?n0 @ CHR '']'' # rest) = Some (xs, rest)"
    proof (rule parse_array_items [OF False _ _ w1 ws_newline_indent m])
      show "parse_value k (?E x @ r) = Some (x, r)"
        if "x \<in> set xs" "length (?E x) \<le> k" "delim r" for x k r
        using that JArr.prems(1) by (intro JArr.IH) (simp_all add: list_all_iff)
      show "starts_value (?E x)" for x by (rule starts_value_iterencode)
    qed
    have "parse_value (Suc m) (CHR ''['' # ?n1 @ ?I @ ?n0 @ CHR '']'' # rest)
        = (case ?I @ ?n0 @ CHR '']'' # rest of
             [] \<Rightarrow> None
           | c' # r \<Rightarrow>
               if c' = CHR '']'' then Some (JArr [], r)
               else (case parse_array m (c' # r) of
                       None \<Rightarrow> None
                     | Some (xs, r') \<Rightarrow> Some (JArr xs, r')))"
      by (simp only: parse_value_array sk)
    then have "parse_value (Suc m) (CHR ''['' # ?n1 @ ?I @ ?n0 @ CHR '']'' # rest)
        = Some (JArr xs, rest)"
      using c items by (simp add: I)
    then show ?thesis unfolding enc n by simp
  qed
next
  case (JObj kvs)
  show ?case
  proof (cases "kvs = []")
    case True
    with JObj.prems obtain m where "n = Suc m" by (cases n) auto
    with True show ?thesis by (simp add: parse_value_object)
  next
    case False
    let ?E = "\<lambda>x. iterencode ind x (Suc lvl)"
    obtain w1 where sep: "item_separator ind @ newline_indent ind (Suc lvl) = CHR '','' # w1"
      and w1: "list_all is_ws w1"
      using item_separator_split [of ind "Suc lvl"] by blast
    let ?I = "intercalate (CHR '','' # w1) (map (item_text ?E) kvs)"
    let ?n1 = "newline_indent ind (Suc lvl)"
    let ?n0 = "newline_indent ind lvl"
    have enc: "iterencode ind (JObj kvs) lvl = CHR ''{'' # ?n1 @ ?I @ ?n0 @ ''}''"
      using False by (simp add: sep iterencode_object_items)
    from JObj.prems(2) obtain m where n: "n = Suc m" and m: "length ?I < m"
      unfolding enc by (cases n) auto
    have q: "?I = CHR 0x22 # tl ?I" using False by (rule intercalate_items_quote)
    have sk: "skip_ws (?n1 @ ?I @ ?n0 @ CHR ''}'' # rest)
        = CHR 0x22 # tl ?I @ ?n0 @ CHR ''}'' # rest"
    proof -
      have "skip_ws (?n1 @ ?I @ ?n0 @ CHR ''}'' # rest) = skip_ws (?I @ ?n0 @ CHR ''}'' # rest)"
        using ws_newline_indent by (rule skip_ws_append)
      also have "\<dots> = skip_ws (CHR 0x22 # tl ?I @ ?n0 @ CHR ''}'' # rest)" by (subst q) simp
      finally show ?thesis by simp
    qed
    have items: "parse_object m (tl ?I @ ?n0 @ CHR ''}'' # rest) = Some (kvs, rest)"
    proof (rule parse_object_items [OF False _ _ w1 ws_newline_indent m])
      show "parse_value j (?E v @ r) = Some (v, r)"
        if "(k, v) \<in> set kvs" "length (?E v) \<le> j" "delim r" for k v j r
      proof (rule JObj.IH [OF that(1)])
        show "v \<in> Basic_BNFs.snds (k, v)" by simp
        show "wf_json v" using JObj.prems(1) that(1) by (auto simp: list_all_iff)
      qed (use that in simp_all)
      show "starts_value (?E v)" for v by (rule starts_value_iterencode)
    qed
    have d: "dict_of kvs = kvs" using JObj.prems(1) by (simp add: dict_of_distinct)
    have "parse_value (Suc m) (CHR ''{'' # ?n1 @ ?I @ ?n0 @ CHR ''}'' # rest)
        = (case CHR 0x22 # tl ?I @ ?n0 @ CHR ''}'' # rest of
             [] \<Rightarrow> None
           | c' # r \<Rightarrow>
               if c' = CHR ''}'' then Some (JObj [], r)
               else if c' = CHR 0x22 then
                 (case parse_object m r of
                    None \<Rightarrow> None
                  | Some (kvs, r') \<Rightarrow> Some (JObj (dict_of kvs), r'))
               else None)"
      by (simp only: parse_value_object sk)
    then have "parse_value (Suc m) (CHR ''{'' # ?n1 @ ?I @ ?n0 @ CHR ''}'' # rest)
        = Some (JObj kvs, rest)"
      using items by (simp add: d)
    then show ?thesis unfolding enc n by simp
  qed
qed

lemma json_loads_iterencode:
  assumes "wf_json v"
  shows "json_loads (iterencode ind v lvl) = Some v"
proof -
  have s: "skip_ws (iterencode ind v lvl) = iterencode ind v lvl"
    using skip_ws_starts [of "[]" "iterencode ind v lvl" "[]"] starts_value_iterencode [of ind v lvl]
    by simp
  have "parse_value (Suc (2 * length (iterencode ind v lvl))) (iterencode ind v lvl @ [])
      = Some (v, [])"
    by (rule parse_value_iterencode [OF assms]) simp_all
  then show ?thesis by (simp add: json_loads_def s)
qed

lemma json_loads_dumps: "wf_json v \<Longrightarrow> json_loads (json_dumps v) = Some v"
  by (simp add: json_dumps_def json_loads_iterencode)


lemma json_dumps_inject:
  assumes "wf_json v" "wf_json w" "json_dumps v = json_dumps w"
  shows "v = w"
proof -
  have "Some v = json_loads (json_dumps v)" using assms(1) by (simp add: json_loads_dumps)
  also have "\<dots> = json_loads (json_dumps w)" by (simp only: assms(3))
  also have "\<dots> = Some w" using assms(2) by (simp add: json_loads_dumps)
  finally show ?thesis by simp
qed

section \<open>Parsed values are well formed\<close>








lemma cons_result_eq_Some:
  "cons_result x res = Some (ys, r) \<longleftrightarrow> (\<exists>xs. res = Some (xs, r) \<and> ys = x # xs)"
  by (auto simp: cons_result_def split: option.splits)






section \<open>The bound on nested calls\<close>

lemma length_skip_ws: "length (skip_ws s) \<le> length s"
  by (simp add: skip_ws_def length_dropWhile_le)

lemma scanstring_step:
  assumes "scanstring s = Some (x, r)"
  shows "(\<exists>c. s = c # r) \<or> (\<exists>s' x'. length s' < length s \<and> scanstring s' = Some (x', r))"
proof (cases s)
  case Nil
  with assms show ?thesis by simp
next
  case (Cons c cs)
  have sub: "\<exists>s' x'. length s' < length s \<and> scanstring s' = Some (x', r)"
    if "scanstring t = Some (y, r)" "length t < length s" for t y
    using that by blast
  show ?thesis
    using assms unfolding Cons scanstring.simps
    by (auto simp: cons_result_eq_Some Let_def Cons
        split: if_splits option.splits list.splits prod.splits
        intro!: sub [unfolded Cons])
qed

lemma scanstring_shorter: "scanstring s = Some (x, r) \<Longrightarrow> length r < length s"
proof (induction "length s" arbitrary: s x rule: less_induct)
  case less
  from scanstring_step [OF less.prems] show ?case
  proof
    assume "\<exists>c. s = c # r" then show ?thesis by auto
  next
    assume "\<exists>s' x'. length s' < length s \<and> scanstring s' = Some (x', r)"
    then obtain s' x' where "length s' < length s" "scanstring s' = Some (x', r)" by blast
    with less.hyps [of s' x'] show ?thesis by simp
  qed
qed

lemma match_integer_shorter: "match_integer s = Some (ds, r) \<Longrightarrow> length r < length s"
  by (auto simp: match_integer_def less_Suc_eq_le length_dropWhile_le
      split: list.splits if_splits)

lemma parse_number_shorter: "parse_number s = Some (v, r) \<Longrightarrow> length r < length s"
proof -
  assume a: "parse_number s = Some (v, r)"
  show ?thesis
  proof (cases s)
    case Nil
    with a show ?thesis by (simp add: parse_number_def match_integer_def)
  next
    case (Cons c cs)
    show ?thesis
    proof (cases "c = CHR ''-''")
      case True
      with a Cons obtain ds where "match_integer cs = Some (ds, r)"
        by (auto simp: parse_number_def split: option.splits if_splits)
      from match_integer_shorter [OF this] Cons show ?thesis by simp
    next
      case False
      with a Cons obtain ds where "match_integer s = Some (ds, r)"
        by (auto simp: parse_number_def split: option.splits if_splits)
      from match_integer_shorter [OF this] show ?thesis .
    qed
  qed
qed

lemma parse_value_atom:
  "c \<noteq> CHR 0x22 \<Longrightarrow> c \<noteq> CHR ''{'' \<Longrightarrow> c \<noteq> CHR ''['' \<Longrightarrow>
     parse_value (Suc n) (c # cs) = parse_atom (c # cs)"
  by (simp add: parse_value.simps parse_atom_def)

lemma parse_atom_shorter: "parse_atom s = Some (v, r) \<Longrightarrow> length r < length s"
proof -
  have d: "length (drop k s) < length s" if "take k s = t" "t \<noteq> []" for k t
    using that by (cases s; cases k) auto
  assume "parse_atom s = Some (v, r)"
  then show ?thesis
    unfolding parse_atom_def
    by (auto split: if_splits dest: parse_number_shorter d)
qed

lemma skip_ws_Cons_shorter: "skip_ws cs = c # r \<Longrightarrow> length r < length cs"
  using length_skip_ws [of cs] by simp

lemma parse_fuel:
  "(\<forall>s v r. parse_value m s = Some (v, r) \<longrightarrow>
       length r < length s
       \<and> (\<forall>n. 2 * (length s - length r) \<le> Suc n \<longrightarrow> parse_value n s = Some (v, r)))
   \<and> (\<forall>s vs r. parse_array m s = Some (vs, r) \<longrightarrow>
       length r < length s
       \<and> (\<forall>n. 2 * (length s - length r) \<le> n \<longrightarrow> parse_array n s = Some (vs, r)))
   \<and> (\<forall>s kvs r. parse_object m s = Some (kvs, r) \<longrightarrow>
       length r < length s
       \<and> (\<forall>n. 2 * (length s - length r) \<le> n \<longrightarrow> parse_object n s = Some (kvs, r)))"
proof (induction m)
  case 0
  show ?case by (simp add: parse_value.simps parse_array.simps parse_object.simps)
next
  case (Suc m)
  have ihv: "length r < length s"
    "2 * (length s - length r) \<le> Suc n \<Longrightarrow> parse_value n s = Some (v, r)"
    if "parse_value m s = Some (v, r)" for s v r n
    using that Suc by blast+
  have iha: "length r < length s"
    "2 * (length s - length r) \<le> n \<Longrightarrow> parse_array n s = Some (vs, r)"
    if "parse_array m s = Some (vs, r)" for s vs r n
    using that Suc by blast+
  have iho: "length r < length s"
    "2 * (length s - length r) \<le> n \<Longrightarrow> parse_object n s = Some (kvs, r)"
    if "parse_object m s = Some (kvs, r)" for s kvs r n
    using that Suc by blast+
  have V: "length r < length s
       \<and> (\<forall>n. 2 * (length s - length r) \<le> Suc n \<longrightarrow> parse_value n s = Some (v, r))"
    if pv: "parse_value (Suc m) s = Some (v, r)" for s v r
  proof (cases s)
    case Nil
    with pv show ?thesis by (simp add: parse_value.simps)
  next
    case (Cons c cs)
    consider (str) "c = CHR 0x22" | (obj) "c = CHR ''{''" | (arr) "c = CHR ''[''"
      | (atom) "c \<noteq> CHR 0x22" "c \<noteq> CHR ''{''" "c \<noteq> CHR ''[''"
      by blast
    then show ?thesis
    proof cases
      case str
      from pv obtain x where sc: "scanstring cs = Some (x, r)" and v: "v = JStr x"
        by (auto simp: Cons str parse_value_string split: option.splits)
      have len: "length r < length cs" using sc by (rule scanstring_shorter)
      have "parse_value n s = Some (v, r)" if "2 * (length s - length r) \<le> Suc n" for n
      proof -
        from that len obtain n' where "n = Suc n'" by (cases n) (auto simp: Cons)
        then show ?thesis by (simp add: Cons str parse_value_string sc v)
      qed
      with len show ?thesis by (simp add: Cons)
    next
      case atom
      from pv have pa: "parse_atom s = Some (v, r)"
        by (simp add: Cons parse_value_atom [OF atom])
      have len: "length r < length s" using pa by (rule parse_atom_shorter)
      have "parse_value n s = Some (v, r)" if "2 * (length s - length r) \<le> Suc n" for n
      proof -
        from that len obtain n' where "n = Suc n'" by (cases n) auto
        then show ?thesis using pa by (simp add: Cons parse_value_atom [OF atom])
      qed
      with len show ?thesis by simp
    next
      case arr
      from pv obtain c' r0 where sk: "skip_ws cs = c' # r0"
        by (auto simp: Cons arr parse_value_array split: list.splits)
      have l0: "length r0 < length cs" using sk by (rule skip_ws_Cons_shorter)
      show ?thesis
      proof (cases "c' = CHR '']''")
        case True
        with pv have v: "v = JArr []" "r = r0"
          by (simp_all add: Cons arr parse_value_array sk)
        have "parse_value n s = Some (v, r)" if "2 * (length s - length r) \<le> Suc n" for n
        proof -
          from that l0 obtain n' where "n = Suc n'" by (cases n) (auto simp: Cons v)
          then show ?thesis by (simp add: Cons arr parse_value_array sk True v)
        qed
        with l0 show ?thesis by (simp add: Cons v)
      next
        case False
        with pv obtain xs where pa: "parse_array m (c' # r0) = Some (xs, r)" and v: "v = JArr xs"
          by (auto simp: Cons arr parse_value_array sk split: option.splits)
        have l1: "length r < length (c' # r0)" using pa by (rule iha(1))
        have "parse_value n s = Some (v, r)" if "2 * (length s - length r) \<le> Suc n" for n
        proof -
          from that l0 l1 obtain n' where n: "n = Suc n'"
            and n': "2 * (length (c' # r0) - length r) \<le> n'"
            by (cases n) (auto simp: Cons)
          from iha(2) [OF pa n'] show ?thesis
            by (simp add: n Cons arr parse_value_array sk False v)
        qed
        with l0 l1 show ?thesis by (simp add: Cons)
      qed
    next
      case obj
      from pv obtain c' r0 where sk: "skip_ws cs = c' # r0"
        by (auto simp: Cons obj parse_value_object split: list.splits)
      have l0: "length r0 < length cs" using sk by (rule skip_ws_Cons_shorter)
      show ?thesis
      proof (cases "c' = CHR ''}''")
        case True
        with pv have v: "v = JObj []" "r = r0"
          by (simp_all add: Cons obj parse_value_object sk)
        have "parse_value n s = Some (v, r)" if "2 * (length s - length r) \<le> Suc n" for n
        proof -
          from that l0 obtain n' where "n = Suc n'" by (cases n) (auto simp: Cons v)
          then show ?thesis by (simp add: Cons obj parse_value_object sk True v)
        qed
        with l0 show ?thesis by (simp add: Cons v)
      next
        case False
        with pv have q: "c' = CHR 0x22"
          by (auto simp: Cons obj parse_value_object sk split: if_splits)
        with pv False obtain kvs where po: "parse_object m r0 = Some (kvs, r)"
          and v: "v = JObj (dict_of kvs)"
          by (auto simp: Cons obj parse_value_object sk split: option.splits)
        have l1: "length r < length r0" using po by (rule iho(1))
        have "parse_value n s = Some (v, r)" if "2 * (length s - length r) \<le> Suc n" for n
        proof -
          from that l0 l1 obtain n' where n: "n = Suc n'"
            and n': "2 * (length r0 - length r) \<le> n'"
            by (cases n) (auto simp: Cons)
          from iho(2) [OF po n'] show ?thesis
            by (simp add: n Cons obj parse_value_object sk False q v)
        qed
        with l0 l1 show ?thesis by (simp add: Cons)
      qed
    qed
  qed
  have A: "length r < length s
       \<and> (\<forall>n. 2 * (length s - length r) \<le> n \<longrightarrow> parse_array n s = Some (vs, r))"
    if pa: "parse_array (Suc m) s = Some (vs, r)" for s vs r
  proof -
    from pa obtain v r1 where pv: "parse_value m s = Some (v, r1)"
      by (auto simp: parse_array.simps split: option.splits)
    from pa pv obtain c r2 where sk: "skip_ws r1 = c # r2"
      by (auto simp: parse_array.simps split: list.splits)
    have l1: "length r1 < length s" using pv by (rule ihv(1))
    have l2: "length r2 < length r1" using sk by (rule skip_ws_Cons_shorter)
    show ?thesis
    proof (cases "c = CHR '']''")
      case True
      with pa have r: "vs = [v]" "r = r2" by (simp_all add: parse_array.simps pv sk)
      have "parse_array n s = Some (vs, r)" if "2 * (length s - length r) \<le> n" for n
      proof -
        from that l1 l2 obtain n' where n: "n = Suc n'"
          and n': "2 * (length s - length r1) \<le> Suc n'"
          by (cases n) (auto simp: r)
        from ihv(2) [OF pv n'] show ?thesis
          by (simp add: n parse_array.simps sk True r)
      qed
      with l1 l2 show ?thesis by (simp add: r)
    next
      case False
      with pa have c: "c = CHR '',''"
        by (auto simp: parse_array.simps pv sk split: if_splits)
      with pa False obtain vs' where rec: "parse_array m (skip_ws r2) = Some (vs', r)"
        and vs: "vs = v # vs'"
        by (auto simp: parse_array.simps pv sk cons_result_eq_Some)
      have l3: "length r < length (skip_ws r2)" using rec by (rule iha(1))
      have l4: "length (skip_ws r2) \<le> length r2" by (rule length_skip_ws)
      have "parse_array n s = Some (vs, r)" if "2 * (length s - length r) \<le> n" for n
      proof -
        from that l1 l2 l3 l4 obtain n' where n: "n = Suc n'"
          and n1: "2 * (length s - length r1) \<le> Suc n'"
          and n2: "2 * (length (skip_ws r2) - length r) \<le> n'"
          by (cases n) auto
        from ihv(2) [OF pv n1] iha(2) [OF rec n2] show ?thesis
          by (simp add: n parse_array.simps sk c vs)
      qed
      with l1 l2 l3 l4 show ?thesis by simp
    qed
  qed
  have O: "length r < length s
       \<and> (\<forall>n. 2 * (length s - length r) \<le> n \<longrightarrow> parse_object n s = Some (kvs, r))"
    if po: "parse_object (Suc m) s = Some (kvs, r)" for s kvs r
  proof -
    from po obtain k r0 where sc: "scanstring s = Some (k, r0)"
      by (auto simp: parse_object.simps split: option.splits)
    from po sc obtain c r1 where sk0: "skip_ws r0 = c # r1"
      by (auto simp: parse_object.simps split: list.splits)
    from po sc sk0 have c: "c = CHR '':''"
      by (auto simp: parse_object.simps split: if_splits)
    from po sc sk0 c obtain v r2 where pv: "parse_value m (skip_ws r1) = Some (v, r2)"
      by (auto simp: parse_object.simps split: option.splits)
    from po sc sk0 c pv obtain c' r3 where sk2: "skip_ws r2 = c' # r3"
      by (auto simp: parse_object.simps split: list.splits)
    have l0: "length r0 < length s" using sc by (rule scanstring_shorter)
    have l1: "length r1 < length r0" using sk0 by (rule skip_ws_Cons_shorter)
    have l1': "length (skip_ws r1) \<le> length r1" by (rule length_skip_ws)
    have l2: "length r2 < length (skip_ws r1)" using pv by (rule ihv(1))
    have l3: "length r3 < length r2" using sk2 by (rule skip_ws_Cons_shorter)
    show ?thesis
    proof (cases "c' = CHR ''}''")
      case True
      with po have r: "kvs = [(k, v)]" "r = r3"
        by (simp_all add: parse_object.simps sc sk0 c pv sk2)
      have "parse_object n s = Some (kvs, r)" if "2 * (length s - length r) \<le> n" for n
      proof -
        from that l0 l1 l1' l2 l3 obtain n' where n: "n = Suc n'"
          and n': "2 * (length (skip_ws r1) - length r2) \<le> Suc n'"
          by (cases n) (auto simp: r)
        from ihv(2) [OF pv n'] show ?thesis
          by (simp add: n parse_object.simps sc sk0 c sk2 True r)
      qed
      with l0 l1 l1' l2 l3 show ?thesis by (simp add: r)
    next
      case False
      with po have c': "c' = CHR '',''"
        by (auto simp: parse_object.simps sc sk0 c pv sk2 split: if_splits)
      with po obtain q r4 where sk3: "skip_ws r3 = q # r4"
        by (auto simp: parse_object.simps sc sk0 c pv sk2 split: list.splits)
      with po c' have q: "q = CHR 0x22"
        by (auto simp: parse_object.simps sc sk0 c pv sk2 split: if_splits)
      with po c' sk3 obtain kvs' where rec: "parse_object m r4 = Some (kvs', r)"
        and kvs: "kvs = (k, v) # kvs'"
        by (auto simp: parse_object.simps sc sk0 c pv sk2 cons_result_eq_Some)
      have l4: "length r4 < length r3" using sk3 by (rule skip_ws_Cons_shorter)
      have l5: "length r < length r4" using rec by (rule iho(1))
      have "parse_object n s = Some (kvs, r)" if "2 * (length s - length r) \<le> n" for n
      proof -
        from that l0 l1 l1' l2 l3 l4 l5 obtain n' where n: "n = Suc n'"
          and n1: "2 * (length (skip_ws r1) - length r2) \<le> Suc n'"
          and n2: "2 * (length r4 - length r) \<le> n'"
          by (cases n) auto
        from ihv(2) [OF pv n1] iho(2) [OF rec n2] show ?thesis
          by (simp add: n parse_object.simps sc sk0 c sk2 c' sk3 q kvs)
      qed
      with l0 l1 l1' l2 l3 l4 l5 show ?thesis by simp
    qed
  qed
  show ?case using V A O by blast
qed

text \<open>
  The bound on nested calls never decides the result: \<open>json_loads\<close> returns a value
  exactly when some bound lets the parser return it.
\<close>

lemma json_loads_fuel:
  "json_loads s = Some v \<longleftrightarrow>
     (\<exists>m r. parse_value m (skip_ws s) = Some (v, r) \<and> skip_ws r = [])"
proof
  assume "json_loads s = Some v"
  then show "\<exists>m r. parse_value m (skip_ws s) = Some (v, r) \<and> skip_ws r = []"
    by (auto simp: json_loads_def split: option.splits prod.splits if_splits)
next
  assume "\<exists>m r. parse_value m (skip_ws s) = Some (v, r) \<and> skip_ws r = []"
  then obtain m r where p: "parse_value m (skip_ws s) = Some (v, r)" and r: "skip_ws r = []"
    by blast
  have "2 * (length (skip_ws s) - length r) \<le> Suc (Suc (2 * length s))"
    using length_skip_ws [of s] by simp
  with parse_fuel [of m] p have "parse_value (Suc (2 * length s)) (skip_ws s) = Some (v, r)"
    by blast
  then show "json_loads s = Some v" by (simp add: json_loads_def r)
qed

section \<open>Export and import\<close>


lemma bind_text_JStr: "bind_text (JStr x) = Inr (Some x)"
  by (simp add: bind_text_def)










lemma ops_store_built:
  "\<exists>s1 s2 b p v.
     create_dashboard example_fp init_db ''2024-01-01T00:00:00'' ''2024-01-01T00:00:01''
       ''Ops'' ''desc'' (Some [''prod'']) ''30s'' ''1h'' = Inr (s1, b)
     \<and> add_panel example_fp s1 (b_id b) ''CPU'' ''timeseries'' ''rate(cpu[5m])'' ''prometheus''
          None None = Inr (s2, p)
     \<and> add_variable s2 (b_id b) ''host'' ''label_values(host)'' ''query'' = Inr (ops_store, v)"
  by (simp add: create_dashboard_def new_dashboard_def dashboard_row_of_def bind_text_JStr
      init_db_def example_fp_def or_empty_def Let_def add_panel_def select_dashboard_def
      new_panel_def json_loads_dumps add_variable_def new_variable_def ops_store_def ops_row_def)










section \<open>Creating a dashboard twice\<close>

lemma create_dashboard_Inr:
  assumes "create_dashboard fp s t1 c1 title d1 g1 r1 tr1 = Inr (s1, b1)"
  shows "b1 = new_dashboard fp t1 c1 title d1 g1 r1 tr1"
    and "\<exists>row. dashboards s1 = dashboards s @ [row] \<and> d_uid row = Some (fp title)"
  using assms
  by (auto simp: create_dashboard_def new_dashboard_def dashboard_row_of_def bind_text_JStr
      Let_def split: if_splits)

text \<open>
  C7 (amended). When a first \<open>create_dashboard\<close> has succeeded, a second one with
  the same title builds a dashboard with the same uid, the fingerprint of the title, and
  with the fingerprint of title and second instant as id, which equals the first id
  exactly when the two fingerprints of title and instant coincide; and the second call
  fails with \<^verbatim>\<open>IntegrityError\<close>, whatever its id.
\<close>

theorem create_dashboard_twice:
  assumes "create_dashboard fp s t1 c1 title d1 g1 r1 tr1 = Inr (s1, b1)"
  shows "b_id b1 = fp (title @ t1) \<and> b_uid b1 = JStr (fp title)
     \<and> b_id (new_dashboard fp t2 c2 title d2 g2 r2 tr2) = fp (title @ t2)
     \<and> b_uid (new_dashboard fp t2 c2 title d2 g2 r2 tr2) = b_uid b1
     \<and> (b_id (new_dashboard fp t2 c2 title d2 g2 r2 tr2) = b_id b1
          \<longleftrightarrow> fp (title @ t2) = fp (title @ t1))
     \<and> create_dashboard fp s1 t2 c2 title d2 g2 r2 tr2 = Inl IntegrityError"
proof -
  from create_dashboard_Inr [OF assms]
  obtain row where b1: "b1 = new_dashboard fp t1 c1 title d1 g1 r1 tr1"
    and rows: "dashboards s1 = dashboards s @ [row]" and uid: "d_uid row = Some (fp title)"
    by blast
  have "create_dashboard fp s1 t2 c2 title d2 g2 r2 tr2 = Inl IntegrityError"
    using uid
    by (simp add: create_dashboard_def new_dashboard_def dashboard_row_of_def bind_text_JStr
        Let_def rows conflicts_def)
  then show ?thesis by (simp add: b1 new_dashboard_def)
qed

text \<open>
  Two calls a year apart.
\<close>

theorem create_dashboard_twice_witness:
  "(\<exists>s1 b1.
      create_dashboard example_fp init_db ''2024-01-01T00:00:00'' ''2024-01-01T00:00:01''
        ''Ops'' ''desc'' None ''30s'' ''1h'' = Inr (s1, b1)
      \<and> b_id b1 = ''Ops2024-'' \<and> b_uid b1 = JStr ''Ops''
      \<and> b_id (new_dashboard example_fp ''2025-01-01T00:00:00'' ''2025-01-01T00:00:01''
                 ''Ops'' ''desc'' None ''30s'' ''1h'') = ''Ops2025-''
      \<and> b_uid (new_dashboard example_fp ''2025-01-01T00:00:00'' ''2025-01-01T00:00:01''
                  ''Ops'' ''desc'' None ''30s'' ''1h'') = JStr ''Ops''
      \<and> create_dashboard example_fp s1 ''2025-01-01T00:00:00'' ''2025-01-01T00:00:01''
            ''Ops'' ''desc'' None ''30s'' ''1h'' = Inl IntegrityError)"
proof -
  obtain s1 b1 where c: "create_dashboard example_fp init_db ''2024-01-01T00:00:00''
      ''2024-01-01T00:00:01'' ''Ops'' ''desc'' None ''30s'' ''1h'' = Inr (s1, b1)"
    by (simp add: create_dashboard_def new_dashboard_def dashboard_row_of_def bind_text_JStr
        Let_def init_db_def)
  from create_dashboard_twice [OF c, of "''2025-01-01T00:00:00''" "''2025-01-01T00:00:01''"
      "''desc''" None "''30s''" "''1h''"] c
  show ?thesis by (simp add: example_fp_def)
qed

text \<open>
  C7 as stated fails when both calls read the same instant: the second call builds the
  id of the first (both are the fingerprint of one text, whatever the fingerprint
  function), and fails.
\<close>

theorem create_dashboard_same_instant:
  "create_dashboard example_fp init_db ''2024-01-01T00:00:00'' ''2024-01-01T00:00:00''
     ''Ops'' ''desc'' None ''30s'' ''1h''
     = Inr (ops_created,
            \<lparr>b_id = ''Ops2024-'', b_uid = JStr ''Ops'', b_title = ''Ops'',
             b_description = JStr ''desc'', b_tags = JArr [], b_panels = [],
             b_variables = [], b_refresh_interval = JStr ''30s'',
             b_time_range = JStr ''1h'', b_created_at = ''2024-01-01T00:00:00''\<rparr>)
   \<and> b_id (new_dashboard example_fp ''2024-01-01T00:00:00'' ''2024-01-01T00:00:00''
              ''Ops'' ''desc'' None ''30s'' ''1h'') = ''Ops2024-''
   \<and> create_dashboard example_fp ops_created ''2024-01-01T00:00:00'' ''2024-01-01T00:00:00''
        ''Ops'' ''desc'' None ''30s'' ''1h'' = Inl IntegrityError"
  by (simp add: create_dashboard_def new_dashboard_def dashboard_row_of_def bind_text_JStr
      Let_def init_db_def ops_created_def example_fp_def or_empty_def conflicts_def)

section \<open>Adding to a missing dashboard\<close>

lemma select_dashboard_None: "select_dashboard s i = None \<longleftrightarrow> i \<notin> set (map d_id (dashboards s))"
  by (auto simp: select_dashboard_def find_None_iff)

text \<open>
  C9. For a dashboard id that no stored row has, \<open>add_panel\<close> and
  \<open>add_variable\<close> return the store unchanged together with the object they built;
  and whenever either returns, on any store, the object returned is that same object, so
  the result does not tell an add from a miss.
\<close>

theorem add_to_missing_dashboard:
  assumes "i \<notin> set (map d_id (dashboards s))"
  shows "add_panel fp s i title ty q ds pos opts = Inr (s, new_panel fp i title ty q ds pos opts)
     \<and> add_variable s i name q' vt = Inr (s, new_variable name q' vt)
     \<and> (\<forall>s' s'' p. add_panel fp s' i title ty q ds pos opts = Inr (s'', p)
            \<longrightarrow> p = new_panel fp i title ty q ds pos opts)
     \<and> (\<forall>s' s'' x. add_variable s' i name q' vt = Inr (s'', x)
            \<longrightarrow> x = new_variable name q' vt)"
proof -
  have none: "select_dashboard s i = None" using assms by (simp add: select_dashboard_None)
  have p: "p = new_panel fp i title ty q ds pos opts"
    if "add_panel fp s' i title ty q ds pos opts = Inr (s'', p)" for s' s'' p
    using that by (auto simp: add_panel_def Let_def split: option.splits json.splits)
  have x: "x = new_variable name q' vt"
    if "add_variable s' i name q' vt = Inr (s'', x)" for s' s'' x
    using that by (auto simp: add_variable_def Let_def split: option.splits json.splits)
  show ?thesis
    using p x by (simp add: add_panel_def add_variable_def none Let_def)
qed

text \<open>
  The example store has no dashboard with the id \<^verbatim>\<open>missing\<close>.
\<close>

theorem add_to_missing_dashboard_witness:
  "''missing'' \<notin> set (map d_id (dashboards ops_store))
   \<and> add_panel example_fp ops_store ''missing'' ''Mem'' ''gauge'' ''mem_used'' ''prometheus''
        None None
      = Inr (ops_store,
             \<lparr>p_id = ''missing/'', p_title = ''Mem'', p_type = ''gauge'',
              p_datasource = ''prometheus'', p_query = ''mem_used'', p_options = [],
              p_position = \<lparr>pos_x = 0, pos_y = 0, pos_w = 12, pos_h = 8\<rparr>\<rparr>)
   \<and> add_variable ops_store ''missing'' ''env'' ''label_values(env)'' ''query''
      = Inr (ops_store,
             \<lparr>v_name = ''env'', v_type = ''query'', v_query = ''label_values(env)'',
              v_current_value = []\<rparr>)"
proof -
  have m: "''missing'' \<notin> set (map d_id (dashboards ops_store))"
    by (simp add: ops_store_def ops_row_def)
  from add_to_missing_dashboard [OF m, of example_fp "''Mem''" "''gauge''" "''mem_used''"
      "''prometheus''" None None "''env''" "''label_values(env)''" "''query''"] m
  show ?thesis
    by (simp add: new_panel_def new_variable_def example_fp_def or_empty_def
        default_position_def)
qed

section \<open>Labels and their serialized text\<close>

lemma wf_labels_value: "distinct (map fst ls) \<Longrightarrow> wf_json (labels_value ls)"
  by (simp add: labels_value_def list_all_iff o_def case_prod_beta)

lemma labels_value_inject: "labels_value l1 = labels_value l2 \<Longrightarrow> l1 = l2"
proof -
  assume "labels_value l1 = labels_value l2"
  then have "map (\<lambda>(k, v). (k, JStr v)) l1 = map (\<lambda>(k, v). (k, JStr v)) l2"
    by (simp add: labels_value_def)
  moreover have "inj (\<lambda>(k :: string, v). (k, JStr v))" by (auto simp: inj_on_def)
  ultimately show ?thesis by (simp add: inj_map_eq_map)
qed

lemma labels_json_inject:
  assumes "distinct (map fst l1)" "distinct (map fst l2)"
    and "json_dumps (labels_value l1) = json_dumps (labels_value l2)"
  shows "l1 = l2"
  using json_dumps_inject [OF wf_labels_value [OF assms(1)] wf_labels_value [OF assms(2)] assms(3)]
  by (rule labels_value_inject)

text \<open>
  C3 (amended). Labels are matched by their serialized text, and the serializer writes
  the pairs in insertion order: for label mappings with distinct keys, a push under
  one list of pairs changes no query under a different list (the same pairs in another
  order included), and is found by the query under the same list in the same order.
\<close>

theorem labels_match_in_order:
  assumes "distinct (map fst l1)" and "distinct (map fst l2)"
  shows "(l1 \<noteq> l2 \<longrightarrow>
            query_metrics (fst (push_metric s now1 now2 n v (Some l1))) n' (Some l2)
              from_ts to_ts step
            = query_metrics s n' (Some l2) from_ts to_ts step)
       \<and> (l1 = l2 \<longrightarrow>
            now1 \<in> fst ` set (query_metrics (fst (push_metric s now1 now2 n v (Some l1))) n
                                 (Some l2) None None step))"
proof (intro conjI impI)
  assume ne: "l1 \<noteq> l2"
  let ?j1 = "json_dumps (labels_value l1)" and ?j2 = "json_dumps (labels_value l2)"
  have j: "?j1 \<noteq> ?j2" using labels_json_inject [OF assms] ne by blast
  have "filter (\<lambda>r. P r \<and> r_labels r = ?j2 \<and> Q r)
          (metrics (insert_or_ignore_metric s n ?j1 v now1 now2))
        = filter (\<lambda>r. P r \<and> r_labels r = ?j2 \<and> Q r) (metrics s)" for P Q
    using j by (simp add: insert_or_ignore_metric_def)
  note f = this [of _ "\<lambda>r. True", simplified] this
  show "query_metrics (fst (push_metric s now1 now2 n v (Some l1))) n' (Some l2)
          from_ts to_ts step
        = query_metrics s n' (Some l2) from_ts to_ts step"
    by (simp add: query_metrics_def push_metric_def Let_def or_empty_def f
        split: option.splits)
next
  assume eq: "l1 = l2"
  let ?j = "json_dumps (labels_value l1)"
  let ?s' = "insert_or_ignore_metric s n ?j v now1 now2"
  have "key_conflict (metrics ?s') n ?j now1" by (rule conflict_after_insert)
  then obtain r where r: "r \<in> set (metrics ?s')" "r_name r = n" "r_labels r = ?j"
    "r_timestamp r = now1"
    by (auto simp: key_conflict_def list_ex_iff)
  then have "r \<in> set (sort_key r_timestamp
      (filter (\<lambda>r. r_name r = n \<and> r_labels r = ?j) (metrics ?s')))"
    by simp
  then have "r_timestamp r \<in> fst ` set (query_metrics ?s' n (Some l1) None None step)"
    by (force simp: query_metrics_unbounded or_empty_def simp del: set_sort)
  then show "now1 \<in> fst ` set (query_metrics (fst (push_metric s now1 now2 n v (Some l1))) n
                                 (Some l2) None None step)"
    using r(4) eq by (simp add: push_metric_def Let_def or_empty_def)
qed

text \<open>
  The two orders of the pairs \<^verbatim>\<open>a: 1\<close> and \<^verbatim>\<open>b: 2\<close>.
\<close>

theorem labels_match_in_order_witness:
  "distinct (map fst [(''a'', ''1''), (''b'', ''2'')])
   \<and> distinct (map fst [(''b'', ''2''), (''a'', ''1'')])
   \<and> [(''b'', ''2''), (''a'', ''1'')] \<noteq> [(''a'', ''1''), (''b'', ''2'')]
   \<and> query_metrics (fst (push_metric init_db ''2024-01-01T00:00:00'' ''2024-01-01T00:00:00''
                            ''cpu'' 1 (Some [(''b'', ''2''), (''a'', ''1'')])))
        ''cpu'' (Some [(''a'', ''1''), (''b'', ''2'')]) None None 60
      = query_metrics init_db ''cpu'' (Some [(''a'', ''1''), (''b'', ''2'')]) None None 60
   \<and> ''2024-01-01T00:00:00''
        \<in> fst ` set (query_metrics
                        (fst (push_metric init_db ''2024-01-01T00:00:00''
                                ''2024-01-01T00:00:00'' ''cpu'' 1
                                (Some [(''a'', ''1''), (''b'', ''2'')])))
                        ''cpu'' (Some [(''a'', ''1''), (''b'', ''2'')]) None None 60)"
proof -
  have d: "distinct (map fst [(''a'', ''1''), (''b'', ''2'')])"
    "distinct (map fst [(''b'', ''2''), (''a'', ''1'')])"
    by simp_all
  show ?thesis
    using labels_match_in_order [OF d(2) d(1), of init_db "''2024-01-01T00:00:00''"
        "''2024-01-01T00:00:00''" "''cpu''" 1 "''cpu''" None None 60]
      labels_match_in_order [OF d(1) d(1), of init_db "''2024-01-01T00:00:00''"
        "''2024-01-01T00:00:00''" "''cpu''" 1 "''cpu''" None None 60]
    by simp
qed

text \<open>
  C3 as stated fails: a sample pushed under \<^verbatim>\<open>{"b": "2", "a": "1"}\<close> is not
  returned by the query under \<^verbatim>\<open>{"a": "1", "b": "2"}\<close>; the two texts differ.
\<close>

theorem labels_order_counterexample:
  "query_metrics (fst (push_metric init_db ''2024-01-01T00:00:00'' ''2024-01-01T00:00:00''
                         ''cpu'' 1 (Some [(''b'', ''2''), (''a'', ''1'')])))
     ''cpu'' (Some [(''a'', ''1''), (''b'', ''2'')]) None None 60 = []
   \<and> json_dumps (labels_value [(''b'', ''2''), (''a'', ''1'')]) = ''{\"b\": \"2\", \"a\": \"1\"}''
   \<and> json_dumps (labels_value [(''a'', ''1''), (''b'', ''2'')]) = ''{\"a\": \"1\", \"b\": \"2\"}''"
  by (simp add: query_metrics_def push_simps dumps_simps)

end
